theory Spec2Isabelle
  imports Main "HOL-Library.Word"
begin

section \<open>lilx: a small DOM style parser for XML snippets\<close>

text \<open>
  A shallow embedding of \<^verbatim>\<open>lilx.c\<close> and \<^verbatim>\<open>stack.c\<close>.

  Conventions of the embedding.
  \<^item> A C string is the \<open>char list\<close> of the bytes before its terminator. A cursor into
    the raw XML (\<^verbatim>\<open>char *xml\<close>) is the list of the bytes from the cursor to the end of the
    buffer, \<^emph>\<open>terminator included\<close>: the cursor of a well-formed buffer is never empty
    and ends in \<open>CHR 0x00\<close>. Reading through an empty cursor is a read beyond the
    terminator.
  \<^item> \<^verbatim>\<open>uint8_t\<close> is \<open>8 word\<close>; \<^verbatim>\<open>int8_t\<close> is an \<open>8 word\<close> read with \<open>sint\<close>.
  \<^item> A pointer to a heap object is an address (\<open>nat\<close>), \<^verbatim>\<open>void *\<close> is an
    \<open>addr option\<close> with \<open>None\<close> for \<^verbatim>\<open>NULL\<close>.
  \<^item> Behaviour that C leaves undefined (a store or a read outside an allocated array, a
    frame used through the wrong struct type, \<^verbatim>\<open>free\<close> of a pointer that \<^verbatim>\<open>malloc\<close> did
    not return) is the explicit outcome \<open>Undefined\<close>, which ends the run.
  \<^item> \<^verbatim>\<open>malloc\<close> may fail: a budget \<open>nat option\<close> counts the allocations that succeed
    before the first failure (\<open>None\<close>: no allocation fails).
  \<^item> \<^verbatim>\<open>isalnum\<close> and \<^verbatim>\<open>isspace\<close> are those of the "C" locale.
  \<^item> \<^verbatim>\<open>free\<close> of an element or an attribute turns the object at its address into
    \<open>Freed\<close>; a later use of the address is undefined. A string or an array is the value
    of the field that points to it and goes with the struct that holds the field: its
    storage is not tracked apart, but for an attribute value that is freed while the
    attribute keeps pointing to it (\<open>Attr_value_freed\<close>). The token buffer is not tracked.
\<close>

subsection \<open>Outcomes\<close>

datatype fault =
    Read_past_end       \<comment> \<open>a read of the raw XML beyond its terminator\<close>
  | Token_store nat     \<comment> \<open>a store into the token buffer at an index outside it\<close>
  | Stack_slot int      \<comment> \<open>an access to a slot outside the stack's array\<close>
  | Bad_pointer         \<comment> \<open>a pointer to no live object\<close>
  | Wrong_kind          \<comment> \<open>an element used as an attribute, or the reverse\<close>
  | Bad_free            \<comment> \<open>\<^verbatim>\<open>free\<close> of a pointer that is not the start of a block\<close>
  | Use_after_free      \<comment> \<open>a read or a store through a pointer to a freed struct\<close>
  | Double_free         \<comment> \<open>\<^verbatim>\<open>free\<close> of a block that is already freed\<close>

datatype 'a outcome = Undefined fault | Returns 'a

subsection \<open>Configuration constants (lilx.h)\<close>

definition LILX_MAX_TOKEN_LENGTH :: nat where
  "LILX_MAX_TOKEN_LENGTH = 1000"

definition LILX_STACK_SIZE :: "8 word" where
  "LILX_STACK_SIZE = 100"

subsection \<open>Character classes\<close>

definition isalnum :: "char \<Rightarrow> bool" where
  "isalnum c = (c \<in> set ''0123456789ABCDEFGHIJKLMNOPQRSTUVWXYZabcdefghijklmnopqrstuvwxyz'')"

definition isspace :: "char \<Rightarrow> bool" where
  "isspace c = (c \<in> set [CHR '' '', CHR 0x09, CHR 0x0A, CHR 0x0B, CHR 0x0C, CHR 0x0D])"

text \<open>\<^verbatim>\<open>strchr(s, c) != NULL\<close>: the terminator of \<open>s\<close> counts as a character of \<open>s\<close>.\<close>

definition strchr :: "string \<Rightarrow> char \<Rightarrow> bool" where
  "strchr s c = (c \<in> set s \<or> c = CHR 0x00)"

text \<open>\<^verbatim>\<open>strstr(s, needle) != NULL\<close>.\<close>

primrec strstr :: "string \<Rightarrow> string \<Rightarrow> bool" where
  "strstr [] needle = (needle = [])"
| "strstr (c # cs) needle = (take (length needle) (c # cs) = needle \<or> strstr cs needle)"

text \<open>
  \<^verbatim>\<open>strncmp(a, b, n) == 0\<close>: the first \<open>n\<close> bytes of the two strings, terminators included,
  are the same.
\<close>

definition strncmp_eq :: "string \<Rightarrow> string \<Rightarrow> nat \<Rightarrow> bool" where
  "strncmp_eq a b n = (take n (a @ [CHR 0x00]) = take n (b @ [CHR 0x00]))"

definition XML_BODY_CHARS :: string where
  "XML_BODY_CHARS = ''!@#$%^&*()-_=+[{]}'' @ [CHR 0x5C] @ ''/|;:,.?''"

subsection \<open>The pattern matcher\<close>

text \<open>
  \<^verbatim>\<open>__lilx_compare\<close>. The loop runs over the transition string; \<open>offset\<close> is the
  \<^verbatim>\<open>uint8_t\<close> behind the \<^verbatim>\<open>offset\<close> pointer. \<open>Returns None\<close> is \<^verbatim>\<open>return 1\<close>,
  \<open>Returns (Some n)\<close> is \<^verbatim>\<open>return 0\<close> with \<open>n\<close> stored in \<^verbatim>\<open>*offset\<close>.
  In the case \<^verbatim>\<open>'s'\<close> the source steps the transition (on whitespace) or the offset and the
  cursor (otherwise) back by one before the common increments at the end of the loop body.
\<close>

fun lilx_compare_loop :: "string \<Rightarrow> string \<Rightarrow> 8 word \<Rightarrow> 8 word option outcome" where
  "lilx_compare_loop xml [] offset = Returns (Some (offset - 1))"
| "lilx_compare_loop [] (t # ts) offset = Undefined Read_past_end"
| "lilx_compare_loop (x # xs) (t # ts) offset =
    (if t = CHR ''A'' then
       (if strchr XML_BODY_CHARS x \<and> x \<noteq> CHR 0x00 then lilx_compare_loop xs ts (offset + 1)
        else if \<not> isalnum x then Returns None
        else lilx_compare_loop xs ts (offset + 1))
     else if t = CHR ''a'' then
       (if \<not> isalnum x then Returns None else lilx_compare_loop xs ts (offset + 1))
     else if t = CHR ''S'' then
       (if \<not> isspace x then Returns None else lilx_compare_loop xs ts (offset + 1))
     else if t = CHR ''s'' then
       (if isspace x then lilx_compare_loop xs (t # ts) (offset + 1)
        else lilx_compare_loop (x # xs) ts offset)
     else if t = CHR ''0'' then
       (if x \<noteq> CHR 0x00 then Returns None else lilx_compare_loop xs ts (offset + 1))
     else
       (if t \<noteq> x then Returns None else lilx_compare_loop xs ts (offset + 1)))"

definition lilx_compare :: "string \<Rightarrow> string \<Rightarrow> 8 word option outcome" where
  "lilx_compare xml transition = lilx_compare_loop xml transition 0"

text \<open>
  The number of input bytes a pattern consumes as the specification counts them: one for a
  literal, \<open>a\<close>, \<open>A\<close> and \<open>S\<close>, the length of the whitespace run for \<open>s\<close>, none for \<open>0\<close>.
\<close>

fun spec_consumed :: "string \<Rightarrow> string \<Rightarrow> nat" where
  "spec_consumed xml [] = 0"
| "spec_consumed xml (t # ts) =
    (if t = CHR ''s'' then
       length (takeWhile isspace xml) + spec_consumed (dropWhile isspace xml) ts
     else if t = CHR ''0'' then spec_consumed xml ts
     else 1 + spec_consumed (tl xml) ts)"

text \<open>
  The number of input bytes the positions of a pattern are matched against: as above, but
  the position \<open>0\<close> is matched against one byte, the terminator.
\<close>

fun matched_bytes :: "string \<Rightarrow> string \<Rightarrow> nat" where
  "matched_bytes xml [] = 0"
| "matched_bytes xml (t # ts) =
    (if t = CHR ''s'' then
       length (takeWhile isspace xml) + matched_bytes (dropWhile isspace xml) ts
     else 1 + matched_bytes (tl xml) ts)"

subsection \<open>The stack (stack.c)\<close>

text \<open>
  \<^verbatim>\<open>stack_t\<close>. The field \<^verbatim>\<open>top\<close> points into the array that \<^verbatim>\<open>stack_create\<close> allocates:
  \<open>stk_top\<close> is the index of the slot it points to (it can leave the array), and
  \<open>stk_slots\<close> is the array. The fields carry the prefix \<open>stk_\<close> because \<open>size\<close> and
  \<open>top\<close> are constants of HOL.
\<close>

type_synonym addr = nat

record stack_t =
  stk_capacity :: "8 word"
  stk_size :: "8 word"
  stk_top :: int
  stk_slots :: "addr option list"

definition malloc :: "nat option \<Rightarrow> bool \<times> nat option" where
  "malloc budget =
    (case budget of
       None \<Rightarrow> (True, None)
     | Some 0 \<Rightarrow> (False, Some 0)
     | Some (Suc n) \<Rightarrow> (True, Some n))"

definition in_array :: "stack_t \<Rightarrow> int \<Rightarrow> bool" where
  "in_array stack i = (0 \<le> i \<and> i < int (length (stk_slots stack)))"

definition stack_create :: "8 word \<Rightarrow> nat option \<Rightarrow> (8 word \<times> stack_t) \<times> nat option" where
  "stack_create sz budget =
    (let (ok, budget') = malloc budget;
         stack = \<lparr>stk_capacity = sz, stk_size = 0, stk_top = 0,
                  stk_slots = (if ok then replicate (unat sz) None else [])\<rparr>
     in ((if ok then 0 else 1, stack), budget'))"

definition stack_free :: "stack_t \<Rightarrow> unit outcome" where
  "stack_free stack =
    (if stk_top stack - (int (unat (stk_size stack)) - 1) = 0 \<and> stk_slots stack \<noteq> []
     then Returns ()
     else Undefined Bad_free)"

definition stack_push :: "stack_t \<Rightarrow> addr option \<Rightarrow> (8 word \<times> stack_t) outcome" where
  "stack_push stack element =
    (if element = None then Returns (1, stack)
     else if stk_capacity stack \<le> stk_size stack then Returns (1, stack)
     else
       let t = (if 0 < stk_size stack then stk_top stack + 1 else stk_top stack)
       in if in_array stack t
          then Returns (0, stack\<lparr>stk_top := t,
                                  stk_slots := (stk_slots stack)[nat t := element],
                                  stk_size := stk_size stack + 1\<rparr>)
          else Undefined (Stack_slot t))"

definition stack_pop :: "stack_t \<Rightarrow> (addr option \<times> stack_t) outcome" where
  "stack_pop stack =
    (if stk_size stack = 0 \<or> stk_capacity stack < stk_size stack then Returns (None, stack)
     else if in_array stack (stk_top stack)
          then Returns (stk_slots stack ! nat (stk_top stack),
                        stack\<lparr>stk_top := stk_top stack - 1, stk_size := stk_size stack - 1\<rparr>)
          else Undefined (Stack_slot (stk_top stack)))"

definition stack_peek :: "stack_t \<Rightarrow> addr option outcome" where
  "stack_peek stack =
    (if stk_size stack = 0 \<or> stk_capacity stack < stk_size stack then Returns None
     else if in_array stack (stk_top stack)
          then Returns (stk_slots stack ! nat (stk_top stack))
          else Undefined (Stack_slot (stk_top stack)))"

subsection \<open>The tree (lilx.h)\<close>

text \<open>
  \<^verbatim>\<open>element_t\<close> and \<^verbatim>\<open>attribute_t\<close>. A \<^verbatim>\<open>char *\<close> field is a \<open>string option\<close> (\<open>None\<close> for
  \<^verbatim>\<open>NULL\<close>); the arrays \<^verbatim>\<open>attributes\<close> and \<^verbatim>\<open>children\<close> are lists of addresses (\<open>[]\<close> for
  \<^verbatim>\<open>NULL\<close>), beside their \<^verbatim>\<open>uint8_t\<close> counters.
\<close>

record attribute_t =
  attr_name :: "string option"
  attr_value :: "string option"

record element_t =
  elem_name :: "string option"
  elem_body :: "string option"
  elem_num_attributes :: "8 word"
  elem_attributes :: "addr list"
  elem_num_children :: "8 word"
  elem_children :: "addr list"

datatype obj =
    Elem element_t
  | Attr attribute_t
  | Attr_value_freed attribute_t  \<comment> \<open>an attribute whose \<^verbatim>\<open>value\<close> points to a freed string\<close>
  | Freed                         \<comment> \<open>a struct that was freed\<close>

text \<open>The objects that \<^verbatim>\<open>malloc\<close> returned, by address, and the allocation budget.\<close>

record memory =
  objs :: "obj list"
  budget :: "nat option"

definition alloc :: "memory \<Rightarrow> bool \<times> memory" where
  "alloc m = (let (ok, b) = malloc (budget m) in (ok, m\<lparr>budget := b\<rparr>))"

definition new_obj :: "obj \<Rightarrow> memory \<Rightarrow> addr option \<times> memory" where
  "new_obj v m =
    (let (ok, b) = malloc (budget m)
     in if ok then (Some (length (objs m)), m\<lparr>objs := objs m @ [v], budget := b\<rparr>)
        else (None, m\<lparr>budget := b\<rparr>))"

definition element_at :: "memory \<Rightarrow> addr \<Rightarrow> element_t outcome" where
  "element_at m p =
    (if p < length (objs m)
     then (case objs m ! p of
             Elem e \<Rightarrow> Returns e
           | Attr a \<Rightarrow> Undefined Wrong_kind
           | Attr_value_freed a \<Rightarrow> Undefined Wrong_kind
           | Freed \<Rightarrow> Undefined Use_after_free)
     else Undefined Bad_pointer)"

definition attribute_at :: "memory \<Rightarrow> addr \<Rightarrow> attribute_t outcome" where
  "attribute_at m p =
    (if p < length (objs m)
     then (case objs m ! p of
             Attr a \<Rightarrow> Returns a
           | Attr_value_freed a \<Rightarrow> Returns a
           | Elem e \<Rightarrow> Undefined Wrong_kind
           | Freed \<Rightarrow> Undefined Use_after_free)
     else Undefined Bad_pointer)"

definition store :: "memory \<Rightarrow> addr \<Rightarrow> obj \<Rightarrow> memory" where
  "store m p v = m\<lparr>objs := (objs m)[p := v]\<rparr>"

definition lilx_init_element :: element_t where
  "lilx_init_element =
    \<lparr>elem_name = None, elem_body = None, elem_num_attributes = 0, elem_attributes = [],
     elem_num_children = 0, elem_children = []\<rparr>"

text \<open>
  \<^verbatim>\<open>__lilx_add_child\<close> and \<^verbatim>\<open>__lilx_add_attr\<close>: the new array holds the first
  \<^verbatim>\<open>num_children\<close> (\<^verbatim>\<open>num_attributes\<close>) entries of the old one and the new entry; the
  8-bit counter is incremented.
\<close>

definition lilx_add_child :: "memory \<Rightarrow> addr \<Rightarrow> addr \<Rightarrow> (8 word \<times> memory) outcome" where
  "lilx_add_child m parent child =
    (case element_at m parent of
       Undefined f \<Rightarrow> Undefined f
     | Returns e \<Rightarrow>
        let (ok, m1) = alloc m
        in if \<not> ok then Returns (1, m1)
           else Returns (0, store m1 parent (Elem (e\<lparr>
                  elem_children := take (unat (elem_num_children e)) (elem_children e) @ [child],
                  elem_num_children := elem_num_children e + 1\<rparr>))))"

definition lilx_add_attr :: "memory \<Rightarrow> addr \<Rightarrow> addr \<Rightarrow> (8 word \<times> memory) outcome" where
  "lilx_add_attr m element attr =
    (case element_at m element of
       Undefined f \<Rightarrow> Undefined f
     | Returns e \<Rightarrow>
        let (ok, m1) = alloc m
        in if \<not> ok then Returns (1, m1)
           else Returns (0, store m1 element (Elem (e\<lparr>
                  elem_attributes :=
                    take (unat (elem_num_attributes e)) (elem_attributes e) @ [attr],
                  elem_num_attributes := elem_num_attributes e + 1\<rparr>))))"

subsection \<open>Attribute lookup\<close>

text \<open>
  \<^verbatim>\<open>lilx_get_attribute_by_name\<close>. \<open>len\<close> is the \<^verbatim>\<open>uint8_t\<close> that receives \<^verbatim>\<open>strlen(name)\<close>.
  The loop reads \<^verbatim>\<open>attributes[i]\<close> for \<open>i\<close> below \<^verbatim>\<open>num_attributes\<close>.
\<close>

fun get_attribute_loop :: "memory \<Rightarrow> addr list \<Rightarrow> nat \<Rightarrow> string \<Rightarrow> 8 word \<Rightarrow> addr option outcome"
  where
  "get_attribute_loop m attrs 0 name len = Returns None"
| "get_attribute_loop m [] (Suc n) name len = Undefined Bad_pointer"
| "get_attribute_loop m (p # ps) (Suc n) name len =
    (case attribute_at m p of
       Undefined f \<Rightarrow> Undefined f
     | Returns a \<Rightarrow>
        (case attr_name a of
           None \<Rightarrow> Undefined Bad_pointer
         | Some nm \<Rightarrow>
            if strncmp_eq nm name (unat len) then Returns (Some p)
            else get_attribute_loop m ps n name len))"

definition lilx_get_attribute_by_name :: "memory \<Rightarrow> addr \<Rightarrow> string \<Rightarrow> addr option outcome" where
  "lilx_get_attribute_by_name m element name =
    (case element_at m element of
       Undefined f \<Rightarrow> Undefined f
     | Returns e \<Rightarrow>
        get_attribute_loop m (elem_attributes e) (unat (elem_num_attributes e)) name
          (word_of_nat (length name)))"

subsection \<open>The states and the transition table\<close>

datatype lilx_state =
  ELEM_NAME_START | ELEM_NAME_END | ATTR_NAME | ATTR_VAL | ELEM | COMMENT | END

definition all_states :: "lilx_state list" where
  "all_states = [ELEM_NAME_START, ELEM_NAME_END, ATTR_NAME, ATTR_VAL, ELEM, COMMENT, END]"

text \<open>
  \<^verbatim>\<open>__lilx_transitions[state]\<close>: one row per target state, in the order of the enumeration,
  each with \<^verbatim>\<open>STATE_CHOICES\<close> transition strings (\<open>None\<close> for \<^verbatim>\<open>NULL\<close>). The table is the
  one for double quotes: \<^verbatim>\<open>XML_USE_SINGLE_QUOTES\<close> is not defined, so the preprocessor
  reads it as 0. \<open>CHR 0x22\<close> is the double quote.
\<close>

definition lilx_transitions :: "lilx_state \<Rightarrow> string option list list" where
  "lilx_transitions state =
    (case state of
       ELEM_NAME_START \<Rightarrow>
        [[Some ''s>s<a'', Some ''s/>s<a''], [Some ''s>s</a'', Some ''s/>s</a''],
         [Some ''Ssa'', None], [None, None], [Some ''s>sA'', None],
         [Some ''s>s<!--sA'', Some ''s/>s<!--sA''], [Some ''s/>s0'', None]]
     | ELEM_NAME_END \<Rightarrow>
        [[Some ''s>s<a'', None], [Some ''s>s</a'', None], [None, None], [None, None],
         [Some ''s>sA'', None], [Some ''s>s<!--'', None], [Some ''s>s0'', None]]
     | ATTR_NAME \<Rightarrow>
        [[None, None], [None, None], [None, None], [Some (''='' @ CHR 0x22 # ''sA''), None],
         [None, None], [None, None], [None, None]]
     | ATTR_VAL \<Rightarrow>
        [[Some (CHR 0x22 # ''s>s<a''), Some (CHR 0x22 # ''s/>s<a'')],
         [Some (CHR 0x22 # ''s>s</a''), Some (CHR 0x22 # ''s/>s</a'')],
         [Some (CHR 0x22 # ''Ssa''), None], [None, None],
         [Some (CHR 0x22 # ''s>A''), Some (CHR 0x22 # ''s/>sA'')],
         [Some (CHR 0x22 # ''s>s<!--sA''), Some (CHR 0x22 # ''s/>s<!--sA'')],
         [Some (CHR 0x22 # ''s/>s0''), None]]
     | ELEM \<Rightarrow>
        [[Some ''s<a'', None], [Some ''s</a'', None], [None, None], [None, None],
         [None, None], [Some ''<!--sA'', None], [None, None]]
     | COMMENT \<Rightarrow>
        [[Some ''-->s<a'', None], [Some ''-->s</a'', None], [None, None], [None, None],
         [Some ''-->sA'', None], [Some ''-->s<!--sA'', None], [None, None]]
     | END \<Rightarrow>
        [[None, None], [None, None], [None, None], [None, None], [None, None],
         [None, None], [None, None]])"

subsection \<open>The state machine step\<close>

text \<open>
  \<^verbatim>\<open>__lilx_get_next_state\<close>. A \<open>scan\<close> is the local \<^verbatim>\<open>last\<close> (an \<^verbatim>\<open>int8_t\<close>) with what the
  three output parameters hold once something was stored in them: the new state, the
  offset and the transition. \<open>lilx_try_transition\<close> is the body of the inner loop for target
  state \<open>i\<close> and one transition string; \<^verbatim>\<open>tranlen > last\<close> compares the two as \<^verbatim>\<open>int\<close>.
\<close>

type_synonym scan = "8 word \<times> (lilx_state \<times> 8 word \<times> string) option"

definition lilx_try_transition :: "string \<Rightarrow> lilx_state \<Rightarrow> string option \<Rightarrow> scan \<Rightarrow> scan outcome"
  where
  "lilx_try_transition xml i tran acc =
    (case tran of
       None \<Rightarrow> Returns acc
     | Some tr \<Rightarrow>
        let tranlen = (word_of_nat (length tr) :: 8 word)
        in (case lilx_compare xml tr of
              Undefined f \<Rightarrow> Undefined f
            | Returns None \<Rightarrow> Returns acc
            | Returns (Some temp_offset) \<Rightarrow>
               if sint (fst acc) < uint tranlen
               then Returns (tranlen, Some (i, temp_offset, tr))
               else Returns acc))"

fun lilx_scan_choices :: "string \<Rightarrow> lilx_state \<Rightarrow> string option list \<Rightarrow> scan \<Rightarrow> scan outcome"
  where
  "lilx_scan_choices xml i [] acc = Returns acc"
| "lilx_scan_choices xml i (tran # trs) acc =
    (case lilx_try_transition xml i tran acc of
       Undefined f \<Rightarrow> Undefined f
     | Returns acc' \<Rightarrow> lilx_scan_choices xml i trs acc')"

fun lilx_scan_states ::
  "string \<Rightarrow> (lilx_state \<times> string option list) list \<Rightarrow> scan \<Rightarrow> scan outcome" where
  "lilx_scan_states xml [] acc = Returns acc"
| "lilx_scan_states xml ((i, trs) # rows) acc =
    (case lilx_scan_choices xml i trs acc of
       Undefined f \<Rightarrow> Undefined f
     | Returns acc' \<Rightarrow> lilx_scan_states xml rows acc')"

text \<open>
  \<open>Returns None\<close> is \<^verbatim>\<open>return 1\<close> (no state change); \<open>Returns (Some (i, offset, tr))\<close> is
  \<^verbatim>\<open>return 0\<close> with the new state, the offset and the transition stored.
\<close>

definition lilx_get_next_state ::
  "lilx_state \<Rightarrow> string \<Rightarrow> (lilx_state \<times> 8 word \<times> string) option outcome" where
  "lilx_get_next_state state xml =
    (case lilx_scan_states xml (zip all_states (lilx_transitions state)) (- 1, None) of
       Undefined f \<Rightarrow> Undefined f
     | Returns (lst, out) \<Rightarrow> if sint lst = - 1 then Returns None else Returns out)"

text \<open>
  The candidates of a state that match at the cursor, in the order in which the loops
  evaluate them (ascending target state, then ascending alternative), each with its target
  state, the offset the matcher stored and its transition string.
\<close>

type_synonym candidate = "lilx_state \<times> 8 word \<times> string"

definition candidate_match :: "string \<Rightarrow> lilx_state \<Rightarrow> string option \<Rightarrow> candidate list" where
  "candidate_match xml i tran =
    (case tran of
       None \<Rightarrow> []
     | Some tr \<Rightarrow>
        (case lilx_compare xml tr of
           Returns (Some off) \<Rightarrow> [(i, off, tr)]
         | Returns None \<Rightarrow> []
         | Undefined f \<Rightarrow> []))"

definition matching_candidates :: "lilx_state \<Rightarrow> string \<Rightarrow> candidate list" where
  "matching_candidates state xml =
    concat (map (\<lambda>(i, trs). concat (map (candidate_match xml i) trs))
              (zip all_states (lilx_transitions state)))"

definition pattern_length :: "candidate \<Rightarrow> nat" where
  "pattern_length c = length (snd (snd c))"

text \<open>What a matching candidate does to the scan.\<close>

definition pick :: "scan \<Rightarrow> candidate \<Rightarrow> scan" where
  "pick acc c =
    (if sint (fst acc) < uint (word_of_nat (pattern_length c) :: 8 word)
     then (word_of_nat (pattern_length c), Some c)
     else acc)"

subsection \<open>Action handlers\<close>

text \<open>
  An action handler gets the stack, the memory, the token and the transition, and returns
  its return code with the stack and the memory as it leaves them. On its failure paths
  a handler frees the struct it allocated, also when the struct is already linked into
  its parent.
\<close>

type_synonym action_result = "(8 word \<times> stack_t \<times> memory) outcome"

definition lilx_elem_name_start_action ::
  "stack_t \<Rightarrow> memory \<Rightarrow> string \<Rightarrow> string \<Rightarrow> action_result" where
  "lilx_elem_name_start_action stack m tkn transition =
    (case new_obj (Elem lilx_init_element) m of
       (None, m1) \<Rightarrow> Returns (1, stack, m1)
     | (Some element, m1) \<Rightarrow>
        let (ok, m2) = alloc m1
        in if \<not> ok then Returns (1, stack, store m2 element Freed)
           else
             let m3 = store m2 element (Elem (lilx_init_element\<lparr>elem_name := Some tkn\<rparr>))
             in (case stack_peek stack of
                   Undefined f \<Rightarrow> Undefined f
                 | Returns parent \<Rightarrow>
                    (case (case parent of
                             None \<Rightarrow> Returns (0, m3)
                           | Some p \<Rightarrow> lilx_add_child m3 p element) of
                       Undefined f \<Rightarrow> Undefined f
                     | Returns (rc, m4) \<Rightarrow>
                        if rc \<noteq> 0 then Returns (1, stack, store m4 element Freed)
                        else if strstr transition ''/>'' then Returns (0, stack, m4)
                        else
                          (case stack_push stack (Some element) of
                             Undefined f \<Rightarrow> Undefined f
                           | Returns (rc', stack') \<Rightarrow>
                              if rc' \<noteq> 0 then Returns (1, stack', store m4 element Freed)
                              else Returns (0, stack', m4)))))"

text \<open>
  \<^verbatim>\<open>element->name\<close> where \<^verbatim>\<open>element\<close> is the frame on top of the stack, read as an
  \<^verbatim>\<open>element_t\<close>.
\<close>

definition lilx_elem_name_end_action ::
  "stack_t \<Rightarrow> memory \<Rightarrow> string \<Rightarrow> string \<Rightarrow> action_result" where
  "lilx_elem_name_end_action stack m tkn transition =
    (case stack_peek stack of
       Undefined f \<Rightarrow> Undefined f
     | Returns None \<Rightarrow> Returns (1, stack, m)
     | Returns (Some element) \<Rightarrow>
        (case element_at m element of
           Undefined f \<Rightarrow> Undefined f
         | Returns e \<Rightarrow>
            (case elem_name e of
               None \<Rightarrow> Undefined Bad_pointer
             | Some nm \<Rightarrow>
                if \<not> strncmp_eq nm tkn (length tkn) then Returns (1, stack, m)
                else
                  (case stack_pop stack of
                     Undefined f \<Rightarrow> Undefined f
                   | Returns (popped, stack') \<Rightarrow>
                      if popped \<noteq> Some element then Returns (1, stack', m)
                      else Returns (0, stack', m)))))"

definition lilx_attr_name_action ::
  "stack_t \<Rightarrow> memory \<Rightarrow> string \<Rightarrow> string \<Rightarrow> action_result" where
  "lilx_attr_name_action stack m tkn transition =
    (case new_obj (Attr \<lparr>attr_name = None, attr_value = None\<rparr>) m of
       (None, m1) \<Rightarrow> Returns (1, stack, m1)
     | (Some attr, m1) \<Rightarrow>
        let (ok, m2) = alloc m1
        in if \<not> ok then Returns (1, stack, store m2 attr Freed)
           else
             let m3 = store m2 attr (Attr \<lparr>attr_name = Some tkn, attr_value = None\<rparr>)
             in (case stack_peek stack of
                   Undefined f \<Rightarrow> Undefined f
                 | Returns None \<Rightarrow> Returns (1, stack, store m3 attr Freed)
                 | Returns (Some element) \<Rightarrow>
                    (case lilx_add_attr m3 element attr of
                       Undefined f \<Rightarrow> Undefined f
                     | Returns (rc, m4) \<Rightarrow>
                        if rc \<noteq> 0 then Returns (1, stack, store m4 attr Freed)
                        else
                          (case stack_push stack (Some attr) of
                             Undefined f \<Rightarrow> Undefined f
                           | Returns (rc', stack') \<Rightarrow>
                              if rc' \<noteq> 0 then Returns (1, stack', store m4 attr Freed)
                              else Returns (0, stack', m4)))))"

definition lilx_attr_val_action ::
  "stack_t \<Rightarrow> memory \<Rightarrow> string \<Rightarrow> string \<Rightarrow> action_result" where
  "lilx_attr_val_action stack m tkn transition =
    (case stack_peek stack of
       Undefined f \<Rightarrow> Undefined f
     | Returns None \<Rightarrow> Returns (1, stack, m)
     | Returns (Some attr) \<Rightarrow>
        (case attribute_at m attr of
           Undefined f \<Rightarrow> Undefined f
         | Returns a \<Rightarrow>
            if attr_value a \<noteq> None then Returns (1, stack, m)
            else
              let (ok, m1) = alloc m
              in if \<not> ok then Returns (1, stack, m1)
                 else
                   let m2 = store m1 attr (Attr (a\<lparr>attr_value := Some tkn\<rparr>));
                       m3 = store m1 attr (Attr_value_freed (a\<lparr>attr_value := Some tkn\<rparr>))
                   in (case stack_pop stack of
                         Undefined f \<Rightarrow> Undefined f
                       | Returns (popped, stack1) \<Rightarrow>
                          if popped \<noteq> Some attr then Returns (1, stack1, m3)
                          else if strstr transition ''/>''
                          then (case stack_pop stack1 of
                                  Undefined f \<Rightarrow> Undefined f
                                | Returns (popped2, stack2) \<Rightarrow>
                                   if popped2 = None then Returns (1, stack2, m3)
                                   else Returns (0, stack2, m2))
                          else Returns (0, stack1, m2))))"

definition lilx_elem_action ::
  "stack_t \<Rightarrow> memory \<Rightarrow> string \<Rightarrow> string \<Rightarrow> action_result" where
  "lilx_elem_action stack m tkn transition =
    (case stack_peek stack of
       Undefined f \<Rightarrow> Undefined f
     | Returns None \<Rightarrow> Returns (1, stack, m)
     | Returns (Some element) \<Rightarrow>
        (case element_at m element of
           Undefined f \<Rightarrow> Undefined f
         | Returns e \<Rightarrow>
            let (ok, m1) = alloc m
            in if \<not> ok then Returns (1, stack, store m1 element (Elem (e\<lparr>elem_body := None\<rparr>)))
               else Returns (0, stack, store m1 element (Elem (e\<lparr>elem_body := Some tkn\<rparr>)))))"

definition lilx_comment_action ::
  "stack_t \<Rightarrow> memory \<Rightarrow> string \<Rightarrow> string \<Rightarrow> action_result" where
  "lilx_comment_action stack m tkn transition = Returns (0, stack, m)"

definition lilx_end_action ::
  "stack_t \<Rightarrow> memory \<Rightarrow> string \<Rightarrow> string \<Rightarrow> action_result" where
  "lilx_end_action stack m tkn transition = Returns (0, stack, m)"

text \<open>\<^verbatim>\<open>__lilx_actions\<close>: the handler of each state.\<close>

definition lilx_actions ::
  "lilx_state \<Rightarrow> stack_t \<Rightarrow> memory \<Rightarrow> string \<Rightarrow> string \<Rightarrow> action_result" where
  "lilx_actions state =
    (case state of
       ELEM_NAME_START \<Rightarrow> lilx_elem_name_start_action
     | ELEM_NAME_END \<Rightarrow> lilx_elem_name_end_action
     | ATTR_NAME \<Rightarrow> lilx_attr_name_action
     | ATTR_VAL \<Rightarrow> lilx_attr_val_action
     | ELEM \<Rightarrow> lilx_elem_action
     | COMMENT \<Rightarrow> lilx_comment_action
     | END \<Rightarrow> lilx_end_action)"

subsection \<open>The driver loop\<close>

text \<open>
  The variables of \<^verbatim>\<open>lilx_create_tree\<close> that the loop changes. \<open>c_token\<close> holds the bytes
  stored in the token buffer since the last reset, so \<^verbatim>\<open>tknidx\<close> is its length.
\<close>

record config =
  c_state :: lilx_state
  c_xml :: string
  c_token :: string
  c_stack :: stack_t
  c_mem :: memory

text \<open>
  One run of the loop body: the loop goes on, is left by \<^verbatim>\<open>break\<close>, or the run has no
  defined continuation.
\<close>

datatype iteration = Continue config | Break config | Stuck fault

definition lilx_iteration :: "config \<Rightarrow> iteration" where
  "lilx_iteration c =
    (case lilx_get_next_state (c_state c) (c_xml c) of
       Undefined f \<Rightarrow> Stuck f
     | Returns None \<Rightarrow>
        if length (c_token c) = LILX_MAX_TOKEN_LENGTH then Break c
        else if LILX_MAX_TOKEN_LENGTH < length (c_token c)
        then Stuck (Token_store (length (c_token c)))
        else
          (case c_xml c of
             [] \<Rightarrow> Stuck Read_past_end
           | x # xs \<Rightarrow> Continue (c\<lparr>c_token := c_token c @ [x], c_xml := xs\<rparr>))
     | Returns (Some (next_state, offset, transition)) \<Rightarrow>
        if LILX_MAX_TOKEN_LENGTH \<le> length (c_token c)
        then Stuck (Token_store (length (c_token c)))
        else
          (case lilx_actions (c_state c) (c_stack c) (c_mem c) (c_token c) transition of
             Undefined f \<Rightarrow> Stuck f
           | Returns (rc, stack', m') \<Rightarrow>
              if rc \<noteq> 0 then Break (c\<lparr>c_token := [], c_stack := stack', c_mem := m'\<rparr>)
              else Continue (c\<lparr>c_token := [], c_stack := stack', c_mem := m',
                              c_xml := drop (unat offset) (c_xml c),
                              c_state := next_state\<rparr>)))"

text \<open>
  \<^verbatim>\<open>while (state != END && (*xml) != '\0')\<close>. The result is the configuration in which the
  loop is left; \<open>None\<close> is a loop that is never left.
\<close>

partial_function (option) lilx_loop :: "config \<Rightarrow> config outcome option" where
  "lilx_loop c =
    (if c_state c = END then Some (Returns c)
     else
       (case c_xml c of
          [] \<Rightarrow> Some (Undefined Read_past_end)
        | x # xs \<Rightarrow>
           if x = CHR 0x00 then Some (Returns c)
           else
             (case lilx_iteration c of
                Stuck f \<Rightarrow> Some (Undefined f)
              | Break c' \<Rightarrow> Some (Returns c')
              | Continue c' \<Rightarrow> lilx_loop c')))"

declare lilx_loop.simps [code]

text \<open>
  The configurations at the head of the loop in the run that starts in \<open>c0\<close>.
\<close>

inductive reachable :: "config \<Rightarrow> config \<Rightarrow> bool" for c0 :: config where
  reachable_start: "reachable c0 c0"
| reachable_step:
    "reachable c0 c \<Longrightarrow> c_state c \<noteq> END \<Longrightarrow> c_xml c = x # xs \<Longrightarrow> x \<noteq> CHR 0x00 \<Longrightarrow>
     lilx_iteration c = Continue c' \<Longrightarrow> reachable c0 c'"

text \<open>The configuration after at most \<open>n\<close> further runs of the loop body.\<close>

fun lilx_steps :: "nat \<Rightarrow> config \<Rightarrow> config" where
  "lilx_steps 0 c = c"
| "lilx_steps (Suc n) c =
    (if c_state c = END then c
     else
       (case c_xml c of
          [] \<Rightarrow> c
        | x # xs \<Rightarrow>
           if x = CHR 0x00 then c
           else
             (case lilx_iteration c of
                Continue c' \<Rightarrow> lilx_steps n c'
              | Break c' \<Rightarrow> c
              | Stuck f \<Rightarrow> c)))"

subsection \<open>Releasing the tree\<close>

text \<open>
  \<^verbatim>\<open>__lilx_free_tree\<close>. The loop over the attributes of an element, from the last to the
  first: \<open>n\<close> is \<^verbatim>\<open>num_attributes\<close>, and \<^verbatim>\<open>attributes[n - 1]\<close> is read through and freed.
\<close>

fun lilx_free_attributes :: "memory \<Rightarrow> addr list \<Rightarrow> nat \<Rightarrow> memory outcome" where
  "lilx_free_attributes m attrs 0 = Returns m"
| "lilx_free_attributes m attrs (Suc n) =
    (if length attrs \<le> n then Undefined Bad_pointer
     else if length (objs m) \<le> attrs ! n then Undefined Bad_pointer
     else
       (case objs m ! (attrs ! n) of
          Attr a \<Rightarrow> lilx_free_attributes (store m (attrs ! n) Freed) attrs n
        | Attr_value_freed a \<Rightarrow> Undefined Double_free
        | Elem e \<Rightarrow> Undefined Wrong_kind
        | Freed \<Rightarrow> Undefined Use_after_free))"

text \<open>
  The recursion of \<^verbatim>\<open>__lilx_free_tree\<close> over the children, with the pending work written
  out: \<open>Free_tree\<close> is a call of the function, \<open>Free_children\<close> the head of its loop over the
  children (and, once \<^verbatim>\<open>num_children\<close> is 0, the end of the function, where every element
  but the root is freed), \<open>Child_done\<close> the \<^verbatim>\<open>num_children--\<close> after the call for a child
  has returned. \<open>None\<close> is a recursion that never returns.
\<close>

datatype free_task = Free_tree addr bool | Free_children addr bool | Child_done addr bool

partial_function (option) lilx_free_work :: "memory \<Rightarrow> free_task list \<Rightarrow> memory outcome option"
  where
  "lilx_free_work m tasks =
    (case tasks of
       [] \<Rightarrow> Some (Returns m)
     | Free_tree element is_root # rest \<Rightarrow>
        (case element_at m element of
           Undefined f \<Rightarrow> Some (Undefined f)
         | Returns e \<Rightarrow>
            (case lilx_free_attributes m (elem_attributes e) (unat (elem_num_attributes e)) of
               Undefined f \<Rightarrow> Some (Undefined f)
             | Returns m1 \<Rightarrow>
                lilx_free_work (store m1 element (Elem (e\<lparr>elem_num_attributes := 0\<rparr>)))
                  (Free_children element is_root # rest)))
     | Free_children element is_root # rest \<Rightarrow>
        (case element_at m element of
           Undefined f \<Rightarrow> Some (Undefined f)
         | Returns e \<Rightarrow>
            if 0 < elem_num_children e
            then
              (if length (elem_children e) \<le> unat (elem_num_children e) - 1
               then Some (Undefined Bad_pointer)
               else lilx_free_work m
                      (Free_tree (elem_children e ! (unat (elem_num_children e) - 1)) False #
                       Child_done element is_root # rest))
            else if is_root then lilx_free_work m rest
            else lilx_free_work (store m element Freed) rest)
     | Child_done element is_root # rest \<Rightarrow>
        (case element_at m element of
           Undefined f \<Rightarrow> Some (Undefined f)
         | Returns e \<Rightarrow>
            lilx_free_work
              (store m element (Elem (e\<lparr>elem_num_children := elem_num_children e - 1\<rparr>)))
              (Free_children element is_root # rest)))"

declare lilx_free_work.simps [code]

text \<open>\<^verbatim>\<open>lilx_free_tree\<close>: the root itself is not freed.\<close>

definition lilx_free_tree :: "memory \<Rightarrow> addr \<Rightarrow> memory outcome option" where
  "lilx_free_tree m element = lilx_free_work m [Free_tree element True]"

subsection \<open>lilx\_create\_tree\<close>

text \<open>
  The caller's root element is the object at address 0. \<open>lilx_setup\<close> is the function up to
  the loop: \<open>Inl\<close> is an early return, \<open>Inr\<close> the configuration in which the loop is entered.
  \<open>lilx_finish\<close> is the function after the loop: it frees the stack and, when the parse
  failed, releases the tree below the root before it returns 1.
\<close>

definition root :: addr where
  "root = 0"

definition lilx_setup :: "string \<Rightarrow> nat option \<Rightarrow> (8 word \<times> memory) outcome + config" where
  "lilx_setup raw_text b =
    (let xml = raw_text @ [CHR 0x00];
         m0 = \<lparr>objs = [Elem lilx_init_element], budget = b\<rparr>
     in if hd xml \<noteq> CHR ''<'' then Inl (Returns (1, m0))
        else
          let ((rc, stack), b1) = stack_create LILX_STACK_SIZE b
          in if rc \<noteq> 0 then Inl (Returns (1, m0\<lparr>budget := b1\<rparr>))
             else
               let (ok, m1) = alloc (m0\<lparr>budget := b1\<rparr>)
               in if \<not> ok
                  then (case stack_free stack of
                          Undefined f \<Rightarrow> Inl (Undefined f)
                        | Returns u \<Rightarrow> Inl (Returns (1, m1)))
                  else
                    let (ok', m2) = alloc m1
                    in if \<not> ok'
                       then (case stack_free stack of
                               Undefined f \<Rightarrow> Inl (Undefined f)
                             | Returns u \<Rightarrow> Inl (Returns (1, m2)))
                       else
                         let m3 = store m2 root
                                    (Elem (lilx_init_element\<lparr>elem_name := Some ''root''\<rparr>))
                         in (case stack_push stack (Some root) of
                               Undefined f \<Rightarrow> Inl (Undefined f)
                             | Returns (rc', stack1) \<Rightarrow>
                                if rc' \<noteq> 0
                                then (case stack_free stack1 of
                                        Undefined f \<Rightarrow> Inl (Undefined f)
                                      | Returns u \<Rightarrow> Inl (Returns (1, m3)))
                                else Inr \<lparr>c_state = ELEM_NAME_START, c_xml = tl xml,
                                          c_token = [], c_stack = stack1, c_mem = m3\<rparr>))"

definition lilx_finish :: "config \<Rightarrow> (8 word \<times> memory) outcome option" where
  "lilx_finish c =
    (case stack_free (c_stack c) of
       Undefined f \<Rightarrow> Some (Undefined f)
     | Returns u \<Rightarrow>
        if c_state c \<noteq> END \<or> stk_size (c_stack c) \<noteq> 1
        then (case lilx_free_tree (c_mem c) root of
                None \<Rightarrow> None
              | Some (Undefined f) \<Rightarrow> Some (Undefined f)
              | Some (Returns m') \<Rightarrow> Some (Returns (1, m')))
        else Some (Returns (0, c_mem c)))"

definition lilx_create_tree :: "string \<Rightarrow> nat option \<Rightarrow> (8 word \<times> memory) outcome option" where
  "lilx_create_tree raw_text b =
    (case lilx_setup raw_text b of
       Inl r \<Rightarrow> Some r
     | Inr c0 \<Rightarrow>
        (case lilx_loop c0 of
           None \<Rightarrow> None
         | Some (Undefined f) \<Rightarrow> Some (Undefined f)
         | Some (Returns c) \<Rightarrow> lilx_finish c))"

subsection \<open>Invariants of the driver loop\<close>

text \<open>
  The frames on the stack, bottom first: the first \<^verbatim>\<open>size\<close> slots of the array.
\<close>

definition frames :: "stack_t \<Rightarrow> addr option list" where
  "frames stack = take (unat (stk_size stack)) (stk_slots stack)"

text \<open>
  The stack as \<^verbatim>\<open>stack_push\<close> and \<^verbatim>\<open>stack_pop\<close> leave it: \<^verbatim>\<open>top\<close> points to slot
  \<^verbatim>\<open>size - 1\<close> (slot \<open>-1\<close> of an emptied stack), the size is within the capacity and the
  array has \<^verbatim>\<open>capacity\<close> slots.
\<close>

definition stack_shape :: "stack_t \<Rightarrow> bool" where
  "stack_shape stack =
    (stk_top stack = uint (stk_size stack) - 1 \<and>
     stk_size stack \<le> stk_capacity stack \<and>
     length (stk_slots stack) = unat (stk_capacity stack))"

text \<open>
  A frame that points to an element; a frame that points to an attribute whose value is
  not set.
\<close>

definition is_element :: "memory \<Rightarrow> addr option \<Rightarrow> bool" where
  "is_element m p =
    (case p of
       None \<Rightarrow> False
     | Some a \<Rightarrow>
        a < length (objs m) \<and>
        (case objs m ! a of
           Elem e \<Rightarrow> True
         | Attr x \<Rightarrow> False
         | Attr_value_freed x \<Rightarrow> False
         | Freed \<Rightarrow> False))"

definition is_open_attribute :: "memory \<Rightarrow> addr option \<Rightarrow> bool" where
  "is_open_attribute m p =
    (case p of
       None \<Rightarrow> False
     | Some a \<Rightarrow>
        a < length (objs m) \<and>
        (case objs m ! a of
           Elem e \<Rightarrow> False
         | Attr x \<Rightarrow> attr_value x = None
         | Attr_value_freed x \<Rightarrow> False
         | Freed \<Rightarrow> False))"

text \<open>
  The stack of a run of \<^verbatim>\<open>lilx_create_tree\<close>: in shape, of capacity \<^verbatim>\<open>LILX_STACK_SIZE\<close>, and
  with the root at the bottom when it is not empty.
\<close>

definition stack_inv :: "stack_t \<Rightarrow> bool" where
  "stack_inv stack =
    (stack_shape stack \<and> stk_capacity stack = LILX_STACK_SIZE \<and>
     (frames stack = [] \<or> hd (frames stack) = Some root))"

text \<open>
  The kinds of the frames as the state determines them: in state \<open>ATTR_VAL\<close> an attribute
  without value on top of elements, in every other state elements only.
\<close>

definition frame_kinds_at :: "lilx_state \<Rightarrow> stack_t \<Rightarrow> memory \<Rightarrow> bool" where
  "frame_kinds_at state stack m =
    (if state = ATTR_VAL
     then frames stack \<noteq> [] \<and> is_open_attribute m (last (frames stack)) \<and>
          list_all (is_element m) (butlast (frames stack))
     else list_all (is_element m) (frames stack))"

definition frame_kinds :: "config \<Rightarrow> bool" where
  "frame_kinds c = frame_kinds_at (c_state c) (c_stack c) (c_mem c)"

section \<open>Properties\<close>

subsection \<open>The pattern matcher\<close>

lemma lilx_compare_loop_offset:
  "lilx_compare_loop xml transition offset = Returns (Some r) \<Longrightarrow>
   r = offset + word_of_nat (matched_bytes xml transition) - 1"
proof (induction xml transition offset rule: lilx_compare_loop.induct)
  case (1 xml offset)
  then show ?case by simp
next
  case (2 t ts offset)
  then show ?case by simp
next
  case (3 x xs t ts offset)
  then show ?case
    by (simp split: if_splits add: algebra_simps)
qed

text \<open>
  Claim C3, as the code has it. When the matcher succeeds, the offset it stores is one
  less than the number of input bytes the positions of the pattern were matched against
  (one byte for each literal, \<open>a\<close>, \<open>A\<close>, \<open>S\<close> and \<open>0\<close>, the whitespace run for each \<open>s\<close>):
  the byte under the last position is left to the driver. Stated for a match of at least
  one and at most 256 bytes, where the 8-bit counter does not wrap.
\<close>

theorem lilx_compare_offset:
  assumes "lilx_compare xml transition = Returns (Some offset)"
    and "0 < matched_bytes xml transition"
    and "matched_bytes xml transition \<le> 256"
  shows "unat offset = matched_bytes xml transition - 1"
proof -
  obtain n where n: "matched_bytes xml transition = Suc n"
    using assms(2) by (cases "matched_bytes xml transition") auto
  have "offset = word_of_nat (Suc n) - 1"
    using lilx_compare_loop_offset [of xml transition 0 offset] assms(1)
    by (simp add: lilx_compare_def n)
  then have "offset = word_of_nat n" by simp
  moreover have "n < 256" using assms(3) n by simp
  ultimately have "unat offset = n"
    by (simp add: unat_of_nat)
  then show ?thesis by (simp add: n)
qed

theorem lilx_compare_offset_witness:
  "lilx_compare (''><b'' @ [CHR 0x00]) ''s>s<a'' = Returns (Some 2) \<and>
   0 < matched_bytes (''><b'' @ [CHR 0x00]) ''s>s<a'' \<and>
   matched_bytes (''><b'' @ [CHR 0x00]) ''s>s<a'' \<le> 256 \<and>
   unat (2 :: 8 word) = matched_bytes (''><b'' @ [CHR 0x00]) ''s>s<a'' - 1"
  using lilx_compare_offset [of "''><b'' @ [CHR 0x00]" "''s>s<a''" 2]
  by (simp add: lilx_compare_def isspace_def isalnum_def)

text \<open>
  Claim C3 as stated fails: on \<open>><b\<close> the pattern \<open>s>s<a\<close> consumes three bytes as the
  specification counts them, and the matcher stores 2.
\<close>

theorem lilx_compare_offset_counterexample:
  "lilx_compare (''><b'' @ [CHR 0x00]) ''s>s<a'' = Returns (Some 2) \<and>
   spec_consumed (''><b'' @ [CHR 0x00]) ''s>s<a'' = 3 \<and>
   unat (2 :: 8 word) \<noteq> spec_consumed (''><b'' @ [CHR 0x00]) ''s>s<a''"
  by (simp add: lilx_compare_def isspace_def isalnum_def)

subsection \<open>The state machine step\<close>

lemma not_isalnum_nul: "\<not> isalnum (CHR 0x00)"
  by (simp add: isalnum_def)

lemma not_isspace_nul: "\<not> isspace (CHR 0x00)"
  by (simp add: isspace_def)

lemma lilx_compare_loop_defined:
  assumes "xml \<noteq> []" and "last xml = CHR 0x00"
    and "CHR ''0'' \<notin> set (butlast tr)" and "CHR 0x00 \<notin> set tr"
  shows "lilx_compare_loop xml tr offset \<noteq> Undefined f"
  using assms
proof (induction xml arbitrary: tr offset)
  case Nil
  then show ?case by simp
next
  case (Cons x xs)
  note outer = Cons.IH
  have x0: "x = CHR 0x00" if "xs = []" using that Cons.prems(2) by simp
  have xs1: "last xs = CHR 0x00" if "xs \<noteq> []" using that Cons.prems(2) by simp
  show ?case using Cons.prems(3,4)
  proof (induction tr arbitrary: offset)
    case Nil
    show ?case by simp
  next
    case (Cons t ts)
    have ts1: "CHR ''0'' \<notin> set (butlast ts)" using Cons.prems(1) by (cases ts) auto
    have ts2: "CHR 0x00 \<notin> set ts" and tnz: "t \<noteq> CHR 0x00" using Cons.prems(2) by auto
    have t0: "ts = []" if "t = CHR ''0''" using that Cons.prems(1) by (cases ts) auto
    have inner: "lilx_compare_loop (x # xs) ts off \<noteq> Undefined f" for off
      using Cons.IH [OF ts1 ts2] .
    show ?case
    proof (cases "xs = []")
      case True
      then show ?thesis
        using x0 tnz t0 inner not_isalnum_nul not_isspace_nul by simp
    next
      case False
      have o1: "lilx_compare_loop xs ts off \<noteq> Undefined f" for off
        using outer [OF False xs1 [OF False] ts1 ts2] .
      have o2: "lilx_compare_loop xs (CHR ''s'' # ts) off \<noteq> Undefined f"
        if "t = CHR ''s''" for off
        using outer [OF False xs1 [OF False] Cons.prems] that by simp
      show ?thesis using o1 o2 inner by simp
    qed
  qed
qed

lemma table_patterns:
  assumes "(i, trs) \<in> set (zip all_states (lilx_transitions state))"
    and "Some tr \<in> set trs"
  shows "CHR ''0'' \<notin> set (butlast tr) \<and> CHR 0x00 \<notin> set tr \<and> length tr < 128"
  using assms by (cases state) (auto simp: all_states_def lilx_transitions_def)

lemma sint_small: "n < 128 \<Longrightarrow> sint (word_of_nat n :: 8 word) = int n"
  by (simp add: signed_of_nat signed_take_bit_int_eq_self)

lemma uint_small: "n < 128 \<Longrightarrow> uint (word_of_nat n :: 8 word) = int n"
  by (simp add: unsigned_of_nat take_bit_nat_eq_self)

lemma lilx_try_transition_pick:
  assumes "\<And>tr f. tran = Some tr \<Longrightarrow> lilx_compare xml tr \<noteq> Undefined f"
  shows "lilx_try_transition xml i tran acc =
         Returns (foldl pick acc (candidate_match xml i tran))"
proof (cases tran)
  case None
  then show ?thesis by (simp add: lilx_try_transition_def candidate_match_def)
next
  case (Some tr)
  show ?thesis
  proof (cases "lilx_compare xml tr")
    case (Undefined f)
    with assms Some show ?thesis by blast
  next
    case (Returns r)
    with Some show ?thesis
      by (cases r)
        (simp_all add: lilx_try_transition_def candidate_match_def pick_def pattern_length_def)
  qed
qed

lemma lilx_scan_choices_pick:
  assumes "\<And>tr f. Some tr \<in> set trs \<Longrightarrow> lilx_compare xml tr \<noteq> Undefined f"
  shows "lilx_scan_choices xml i trs acc =
         Returns (foldl pick acc (concat (map (candidate_match xml i) trs)))"
  using assms
proof (induction trs arbitrary: acc)
  case Nil
  then show ?case by simp
next
  case (Cons tran trs)
  have "lilx_try_transition xml i tran acc =
        Returns (foldl pick acc (candidate_match xml i tran))"
    using Cons.prems by (intro lilx_try_transition_pick) simp
  moreover have "lilx_scan_choices xml i trs acc' =
        Returns (foldl pick acc' (concat (map (candidate_match xml i) trs)))" for acc'
    using Cons.prems by (intro Cons.IH) simp
  ultimately show ?case by simp
qed

lemma lilx_scan_states_pick:
  assumes "\<And>i trs tr f. (i, trs) \<in> set rows \<Longrightarrow> Some tr \<in> set trs \<Longrightarrow>
             lilx_compare xml tr \<noteq> Undefined f"
  shows "lilx_scan_states xml rows acc =
         Returns (foldl pick acc
           (concat (map (\<lambda>(i, trs). concat (map (candidate_match xml i) trs)) rows)))"
  using assms
proof (induction rows arbitrary: acc)
  case Nil
  then show ?case by simp
next
  case (Cons row rows)
  obtain i trs where row: "row = (i, trs)" by (cases row)
  have "lilx_scan_choices xml i trs acc =
        Returns (foldl pick acc (concat (map (candidate_match xml i) trs)))"
    using Cons.prems row by (intro lilx_scan_choices_pick) auto
  moreover have "lilx_scan_states xml rows acc' =
        Returns (foldl pick acc'
          (concat (map (\<lambda>(i, trs). concat (map (candidate_match xml i) trs)) rows)))" for acc'
    using Cons.prems by (intro Cons.IH) auto
  ultimately show ?case by (simp add: row)
qed

lemma foldl_pick_first_longest:
  assumes "\<And>c. c \<in> set ms \<Longrightarrow> pattern_length c < 128"
  shows "(ms = [] \<and> foldl pick (- 1, None) ms = (- 1, None)) \<or>
         (\<exists>pre w post. ms = pre @ w # post \<and>
            foldl pick (- 1, None) ms = (word_of_nat (pattern_length w), Some w) \<and>
            (\<forall>c \<in> set pre. pattern_length c < pattern_length w) \<and>
            (\<forall>c \<in> set post. pattern_length c \<le> pattern_length w))"
  using assms
proof (induction ms rule: rev_induct)
  case Nil
  then show ?case by simp
next
  case (snoc c ms)
  have c: "pattern_length c < 128" using snoc.prems by simp
  from snoc have IH: "(ms = [] \<and> foldl pick (- 1, None) ms = (- 1, None)) \<or>
         (\<exists>pre w post. ms = pre @ w # post \<and>
            foldl pick (- 1, None) ms = (word_of_nat (pattern_length w), Some w) \<and>
            (\<forall>c \<in> set pre. pattern_length c < pattern_length w) \<and>
            (\<forall>c \<in> set post. pattern_length c \<le> pattern_length w))"
    by simp
  then show ?case
  proof
    assume e: "ms = [] \<and> foldl pick (- 1, None) ms = (- 1, None)"
    have "foldl pick (- 1, None) (ms @ [c]) = (word_of_nat (pattern_length c), Some c)"
      using e c by (simp add: pick_def uint_small)
    moreover have "ms @ [c] = [] @ c # []" using e by simp
    ultimately show ?thesis by fastforce
  next
    assume "\<exists>pre w post. ms = pre @ w # post \<and>
            foldl pick (- 1, None) ms = (word_of_nat (pattern_length w), Some w) \<and>
            (\<forall>c \<in> set pre. pattern_length c < pattern_length w) \<and>
            (\<forall>c \<in> set post. pattern_length c \<le> pattern_length w)"
    then obtain pre w post where ms: "ms = pre @ w # post"
      and acc: "foldl pick (- 1, None) ms = (word_of_nat (pattern_length w), Some w)"
      and pre: "\<forall>c \<in> set pre. pattern_length c < pattern_length w"
      and post: "\<forall>c \<in> set post. pattern_length c \<le> pattern_length w"
      by blast
    have w: "pattern_length w < 128" using snoc.prems ms by simp
    show ?thesis
    proof (cases "pattern_length w < pattern_length c")
      case True
      have "foldl pick (- 1, None) (ms @ [c]) = (word_of_nat (pattern_length c), Some c)"
        using acc c w True by (simp add: pick_def uint_small sint_small)
      moreover have "\<forall>d \<in> set ms. pattern_length d < pattern_length c"
        using ms pre post True by fastforce
      moreover have "ms @ [c] = ms @ c # []" by simp
      ultimately show ?thesis by (metis empty_iff empty_set)
    next
      case False
      have "foldl pick (- 1, None) (ms @ [c]) = (word_of_nat (pattern_length w), Some w)"
        using acc c w False by (simp add: pick_def uint_small sint_small)
      moreover have "ms @ [c] = pre @ w # (post @ [c])" using ms by simp
      moreover have "\<forall>d \<in> set (post @ [c]). pattern_length d \<le> pattern_length w"
        using post False by auto
      ultimately show ?thesis using pre by blast
    qed
  qed
qed

lemma matching_candidates_table:
  assumes "c \<in> set (matching_candidates state xml)"
  shows "\<exists>i trs. (i, trs) \<in> set (zip all_states (lilx_transitions state)) \<and>
           Some (snd (snd c)) \<in> set trs"
  using assms
  by (auto simp: matching_candidates_def candidate_match_def
      split: option.splits outcome.splits) blast+

text \<open>
  Claim C6. At a cursor of a well-formed buffer, for every current state: if no candidate
  matches, no transition is reported; otherwise the candidate reported is one of the
  matching candidates, every matching candidate evaluated before it has a strictly shorter
  transition string and none evaluated after it has a longer one.
\<close>

theorem lilx_get_next_state_first_longest:
  assumes "xml \<noteq> []" and "last xml = CHR 0x00"
  shows "(matching_candidates state xml = [] \<and>
          lilx_get_next_state state xml = Returns None) \<or>
         (\<exists>pre w post. matching_candidates state xml = pre @ w # post \<and>
            lilx_get_next_state state xml = Returns (Some w) \<and>
            (\<forall>c \<in> set pre. pattern_length c < pattern_length w) \<and>
            (\<forall>c \<in> set post. pattern_length c \<le> pattern_length w))"
proof -
  let ?rows = "zip all_states (lilx_transitions state)"
  let ?ms = "matching_candidates state xml"
  have defined: "lilx_compare xml tr \<noteq> Undefined f"
    if "(i, trs) \<in> set ?rows" and "Some tr \<in> set trs" for i trs tr f
    using table_patterns [OF that] lilx_compare_loop_defined [OF assms, of tr 0 f]
    by (simp add: lilx_compare_def)
  have scan: "lilx_scan_states xml ?rows (- 1, None) = Returns (foldl pick (- 1, None) ?ms)"
    unfolding matching_candidates_def
    using defined by (intro lilx_scan_states_pick) blast
  have short: "pattern_length c < 128" if "c \<in> set ?ms" for c
    using matching_candidates_table [OF that] table_patterns
    by (auto simp: pattern_length_def)
  from foldl_pick_first_longest [of ?ms, OF short]
  show ?thesis
  proof
    assume "?ms = [] \<and> foldl pick (- 1, None) ?ms = (- 1, None)"
    then show ?thesis using scan by (simp add: lilx_get_next_state_def)
  next
    assume "\<exists>pre w post. ?ms = pre @ w # post \<and>
            foldl pick (- 1, None) ?ms = (word_of_nat (pattern_length w), Some w) \<and>
            (\<forall>c \<in> set pre. pattern_length c < pattern_length w) \<and>
            (\<forall>c \<in> set post. pattern_length c \<le> pattern_length w)"
    then obtain pre w post where ms: "?ms = pre @ w # post"
      and acc: "foldl pick (- 1, None) ?ms = (word_of_nat (pattern_length w), Some w)"
      and pre: "\<forall>c \<in> set pre. pattern_length c < pattern_length w"
      and post: "\<forall>c \<in> set post. pattern_length c \<le> pattern_length w"
      by blast
    have "pattern_length w < 128" using short ms by simp
    then have "sint (word_of_nat (pattern_length w) :: 8 word) \<noteq> - 1"
      by (simp add: sint_small)
    then have "lilx_get_next_state state xml = Returns (Some w)"
      using scan acc by (simp add: lilx_get_next_state_def)
    then show ?thesis using ms pre post by blast
  qed
qed

theorem lilx_get_next_state_first_longest_witness:
  "''><b'' @ [CHR 0x00] \<noteq> [] \<and> last (''><b'' @ [CHR 0x00]) = CHR 0x00 \<and>
   ((matching_candidates ELEM_NAME_START (''><b'' @ [CHR 0x00]) = [] \<and>
     lilx_get_next_state ELEM_NAME_START (''><b'' @ [CHR 0x00]) = Returns None) \<or>
    (\<exists>pre w post.
       matching_candidates ELEM_NAME_START (''><b'' @ [CHR 0x00]) = pre @ w # post \<and>
       lilx_get_next_state ELEM_NAME_START (''><b'' @ [CHR 0x00]) = Returns (Some w) \<and>
       (\<forall>c \<in> set pre. pattern_length c < pattern_length w) \<and>
       (\<forall>c \<in> set post. pattern_length c \<le> pattern_length w)))"
  using lilx_get_next_state_first_longest [of "''><b'' @ [CHR 0x00]" ELEM_NAME_START]
  by simp

subsection \<open>The stack\<close>

text \<open>
  Claim C10 fails on the code. \<^verbatim>\<open>stack_pop\<close> steps \<^verbatim>\<open>top\<close> down also when it removes the
  last element, and \<^verbatim>\<open>stack_push\<close> does not step it up on an empty stack: the push that
  follows a pop which emptied the stack stores into slot \<open>-1\<close>, in front of the array.
\<close>

theorem stack_push_after_emptying_pop:
  "(case stack_push (snd (fst (stack_create 100 None))) (Some 1) of
      Undefined f \<Rightarrow> Undefined f
    | Returns (r1, s1) \<Rightarrow>
       (case stack_pop s1 of
          Undefined f \<Rightarrow> Undefined f
        | Returns (e, s2) \<Rightarrow> stack_push s2 (Some 2)))
   = Undefined (Stack_slot (- 1))"
  by (simp add: stack_create_def malloc_def stack_push_def stack_pop_def in_array_def)

subsection \<open>Attribute lookup\<close>

text \<open>
  Claim C9 fails on the code. \<^verbatim>\<open>lilx_get_attribute_by_name\<close> compares with \<^verbatim>\<open>strncmp\<close> over
  the length of the name asked for: asked for \<open>id\<close>, it returns the attribute \<open>idx\<close> of an
  element that has no attribute named \<open>id\<close>.
\<close>

theorem lilx_get_attribute_by_name_prefix:
  "lilx_get_attribute_by_name
     \<lparr>objs = [Elem (lilx_init_element\<lparr>elem_name := Some ''e'', elem_num_attributes := 1,
                                       elem_attributes := [1]\<rparr>),
              Attr \<lparr>attr_name = Some ''idx'', attr_value = Some ''1''\<rparr>],
      budget = None\<rparr> 0 ''id''
   = Returns (Some 1)"
  by code_simp

subsection \<open>Runs of the driver loop\<close>

lemma lilx_loop_step:
  "c_state c \<noteq> END \<Longrightarrow> c_xml c = x # xs \<Longrightarrow> x \<noteq> CHR 0x00 \<Longrightarrow>
   lilx_loop c =
     (case lilx_iteration c of
        Stuck f \<Rightarrow> Some (Undefined f)
      | Break c' \<Rightarrow> Some (Returns c')
      | Continue c' \<Rightarrow> lilx_loop c')"
  by (subst lilx_loop.simps) simp

lemma lilx_loop_steps: "lilx_loop (lilx_steps n c) = lilx_loop c"
proof (induction n arbitrary: c)
  case 0
  then show ?case by simp
next
  case (Suc n)
  show ?case
  proof (cases "c_state c = END")
    case True
    then show ?thesis by simp
  next
    case False
    show ?thesis
    proof (cases "c_xml c")
      case Nil
      then show ?thesis using False by simp
    next
      case (Cons x xs)
      show ?thesis
      proof (cases "x = CHR 0x00")
        case True
        then show ?thesis using False Cons by simp
      next
        case nz: False
        show ?thesis
          using False Cons nz Suc.IH lilx_loop_step [OF False Cons nz]
          by (cases "lilx_iteration c") simp_all
      qed
    qed
  qed
qed

text \<open>A configuration that the loop body maps to itself is never left.\<close>

lemma lilx_loop_forever:
  assumes "c_state c \<noteq> END" and "c_xml c = x # xs" and "x \<noteq> CHR 0x00"
    and "lilx_iteration c = Continue c"
  shows "lilx_loop c = None"
proof (rule ccontr)
  assume "lilx_loop c \<noteq> None"
  then obtain y where y: "lilx_loop c = Some y" by auto
  have "c \<noteq> c"
    apply (rule lilx_loop.raw_induct [where P = "\<lambda>d z. d \<noteq> c", OF _ y])
    subgoal premises prems for f d z
    proof
      assume "d = c"
      with prems(2) assms have "f c = Some z" by simp
      with prems(1) show False by blast
    qed
    done
  then show False by simp
qed

text \<open>
  Claim C1 fails on the code. On \<open><a/></r>\<close> the closing tag \<open>r\<close> is compared with the name
  \<open>root\<close> of the root element over the length of \<open>r\<close>, matches, and the root is popped: the
  loop is left in state \<open>END\<close> with an empty stack, \<^verbatim>\<open>top\<close> in front of the array.
\<close>

theorem root_popped_by_closing_tag:
  "(case lilx_setup ''<a/></r>'' None of
      Inl r \<Rightarrow> False
    | Inr c0 \<Rightarrow>
       (case lilx_loop c0 of
          Some (Returns c) \<Rightarrow>
            c_state c = END \<and> stk_size (c_stack c) = 0 \<and> stk_top (c_stack c) = - 1
        | Some (Undefined f) \<Rightarrow> False
        | None \<Rightarrow> False))"
  by code_simp

subsection \<open>The token buffer\<close>

lemma no_transition_in_name:
  "lilx_get_next_state ELEM_NAME_START (CHR ''a'' # ys) = Returns None"
  by (simp add: lilx_get_next_state_def all_states_def lilx_transitions_def
      lilx_try_transition_def lilx_compare_def isspace_def)

lemma end_transition:
  "lilx_get_next_state ELEM_NAME_START (''/>'' @ [CHR 0x00]) =
   Returns (Some (END, 2, ''s/>s0''))"
  by code_simp

lemma long_token_overrun:
  "c_state c = ELEM_NAME_START \<Longrightarrow>
   c_xml c = replicate n (CHR ''a'') @ ''/>'' @ [CHR 0x00] \<Longrightarrow>
   length (c_token c) + n = 1000 \<Longrightarrow>
   lilx_loop c = Some (Undefined (Token_store 1000))"
proof (induction n arbitrary: c)
  case 0
  then have "lilx_iteration c = Stuck (Token_store 1000)"
    using end_transition by (simp add: lilx_iteration_def LILX_MAX_TOKEN_LENGTH_def)
  then show ?case
    using 0 lilx_loop_step [of c "CHR ''/''" "''>'' @ [CHR 0x00]"] by simp
next
  case (Suc n)
  let ?c' = "c\<lparr>c_token := c_token c @ [CHR ''a''],
               c_xml := replicate n (CHR ''a'') @ ''/>'' @ [CHR 0x00]\<rparr>"
  have "lilx_iteration c = Continue ?c'"
    using Suc.prems no_transition_in_name
    by (simp add: lilx_iteration_def LILX_MAX_TOKEN_LENGTH_def)
  moreover have "lilx_loop ?c' = Some (Undefined (Token_store 1000))"
    using Suc.prems by (intro Suc.IH) simp_all
  ultimately show ?case
    using Suc.prems
      lilx_loop_step [of c "CHR ''a''" "replicate n (CHR ''a'') @ ''/>'' @ [CHR 0x00]"]
    by simp
qed

text \<open>
  Claim C4 fails on the code. The test \<^verbatim>\<open>tknidx == LILX_MAX_TOKEN_LENGTH\<close> guards the store
  of a byte of the token, not the store of its terminator: a tag name of exactly
  \<^verbatim>\<open>LILX_MAX_TOKEN_LENGTH\<close> bytes fills the buffer, and the transition that follows stores
  the terminator at index 1000, behind the buffer.
\<close>

theorem token_terminator_stored_past_buffer:
  "lilx_create_tree (CHR ''<'' # replicate 1000 (CHR ''a'') @ ''/>'') None
   = Some (Undefined (Token_store 1000))"
proof -
  obtain c0 where
    c0: "lilx_setup (CHR ''<'' # replicate 1000 (CHR ''a'') @ ''/>'') None = Inr c0"
    and "c_state c0 = ELEM_NAME_START"
    and "c_xml c0 = replicate 1000 (CHR ''a'') @ ''/>'' @ [CHR 0x00]"
    and "c_token c0 = []"
    by (simp add: lilx_setup_def stack_create_def malloc_def alloc_def stack_push_def
        in_array_def LILX_STACK_SIZE_def Let_def)
  then have "lilx_loop c0 = Some (Undefined (Token_store 1000))"
    by (intro long_token_overrun) simp_all
  then show ?thesis by (simp add: lilx_create_tree_def c0)
qed

subsection \<open>Termination\<close>

lemma comment_loop_reached:
  "(case lilx_setup (''<a><!--x-->'' @ replicate 249 (CHR '' '') @ ''<!--y'') None of
      Inl r \<Rightarrow> False
    | Inr c0 \<Rightarrow>
       (let c = lilx_steps 4 c0
        in c_state c \<noteq> END \<and>
           (case c_xml c of [] \<Rightarrow> False | x # xs \<Rightarrow> x \<noteq> CHR 0x00) \<and>
           lilx_iteration c = Continue c))"
  by code_simp

text \<open>
  Claim C5 fails on the code. The offset is an 8-bit counter: in state \<open>COMMENT\<close>, at
  \<open>-->\<close>, 249 blanks and \<open><!--y\<close>, the transition \<open>-->s<!--sA\<close> is matched against 257 bytes,
  the counter wraps and the offset stored is 0. The comment handler does nothing, the
  state stays \<open>COMMENT\<close>, the cursor does not move: the loop is never left.
\<close>

theorem lilx_create_tree_loops_forever:
  "lilx_create_tree (''<a><!--x-->'' @ replicate 249 (CHR '' '') @ ''<!--y'') None = None"
proof -
  let ?raw = "''<a><!--x-->'' @ replicate 249 (CHR '' '') @ ''<!--y''"
  obtain c0 where c0: "lilx_setup ?raw None = Inr c0"
    using comment_loop_reached by (cases "lilx_setup ?raw None") auto
  define c where "c = lilx_steps 4 c0"
  from comment_loop_reached c0 have 1: "c_state c \<noteq> END"
    and 2: "case c_xml c of [] \<Rightarrow> False | x # xs \<Rightarrow> x \<noteq> CHR 0x00"
    and 3: "lilx_iteration c = Continue c"
    by (simp_all add: c_def Let_def)
  from 2 obtain x xs where 4: "c_xml c = x # xs" "x \<noteq> CHR 0x00"
    by (cases "c_xml c") auto
  have "lilx_loop c = None" using lilx_loop_forever [OF 1 4 3] .
  then have "lilx_loop c0 = None" using lilx_loop_steps [of 4 c0] by (simp add: c_def)
  then show ?thesis unfolding lilx_create_tree_def c0 by simp
qed

subsection \<open>The closing-tag action\<close>

lemma strncmp_eq_prefix:
  assumes "CHR 0x00 \<notin> set b"
  shows "strncmp_eq a b (length b) = (take (length b) a = b)"
proof (cases "length b \<le> length a")
  case True
  then show ?thesis by (simp add: strncmp_eq_def)
next
  case False
  then have "take (length b) (a @ [CHR 0x00]) = a @ [CHR 0x00]" by simp
  moreover have "a @ [CHR 0x00] \<noteq> b" using assms by auto
  moreover have "take (length b) a \<noteq> b"
  proof
    assume "take (length b) a = b"
    then have "length (take (length b) a) = length b" by simp
    with False show False by simp
  qed
  ultimately show ?thesis by (simp add: strncmp_eq_def)
qed

text \<open>
  Claim C8. For a token that is a C string and a stack whose size is within its capacity
  and whose top frame, when there is one, is an element \<open>e\<close> named \<open>nm\<close>: the closing-tag
  action returns 0 exactly when the stack is not empty and the first \<open>length tkn\<close> bytes of
  \<open>nm\<close> are the token, and then it has popped the frame; otherwise it returns 1 and leaves
  the stack as it was. The memory is not changed.
\<close>

theorem lilx_elem_name_end_action_spec:
  assumes "CHR 0x00 \<notin> set tkn"
    and "stk_size stack \<le> stk_capacity stack"
    and "stk_size stack \<noteq> 0 \<Longrightarrow>
         in_array stack (stk_top stack) \<and>
         stk_slots stack ! nat (stk_top stack) = Some p \<and>
         element_at m p = Returns e \<and> elem_name e = Some nm"
  shows "lilx_elem_name_end_action stack m tkn transition =
    (if stk_size stack \<noteq> 0 \<and> take (length tkn) nm = tkn
     then Returns (0, stack\<lparr>stk_top := stk_top stack - 1, stk_size := stk_size stack - 1\<rparr>, m)
     else Returns (1, stack, m))"
proof (cases "stk_size stack = 0")
  case True
  then show ?thesis by (simp add: lilx_elem_name_end_action_def stack_peek_def)
next
  case False
  with assms(3) have top: "in_array stack (stk_top stack)"
      "stk_slots stack ! nat (stk_top stack) = Some p"
      "element_at m p = Returns e" "elem_name e = Some nm"
    by simp_all
  have le: "\<not> stk_capacity stack < stk_size stack" using assms(2) by simp
  show ?thesis
    using False top le strncmp_eq_prefix [OF assms(1), of nm]
    by (simp add: lilx_elem_name_end_action_def stack_peek_def stack_pop_def)
qed

theorem lilx_elem_name_end_action_spec_witness:
  "lilx_elem_name_end_action
     \<lparr>stk_capacity = 100, stk_size = 1, stk_top = 0, stk_slots = Some 0 # replicate 99 None\<rparr>
     \<lparr>objs = [Elem (lilx_init_element\<lparr>elem_name := Some ''people''\<rparr>)], budget = None\<rparr>
     ''peo'' ''s>s0''
   = Returns (0, \<lparr>stk_capacity = 100, stk_size = 0, stk_top = - 1,
                   stk_slots = Some 0 # replicate 99 None\<rparr>,
              \<lparr>objs = [Elem (lilx_init_element\<lparr>elem_name := Some ''people''\<rparr>)],
               budget = None\<rparr>)"
  using lilx_elem_name_end_action_spec [of "''peo''"
      "\<lparr>stk_capacity = 100, stk_size = 1, stk_top = 0, stk_slots = Some 0 # replicate 99 None\<rparr>"
      0 "\<lparr>objs = [Elem (lilx_init_element\<lparr>elem_name := Some ''people''\<rparr>)], budget = None\<rparr>"
      "lilx_init_element\<lparr>elem_name := Some ''people''\<rparr>" "''people''" "''s>s0''"]
  by (simp add: in_array_def element_at_def)

subsection \<open>The stack in terms of its frames\<close>

lemma unat_u8_bound: "unat (y :: 8 word) < 256"
  using unsigned_less [of y, where ?'a = nat] by simp

lemma unat_succ_below:
  assumes "(x :: 8 word) < y"
  shows "unat (x + 1) = Suc (unat x)"
proof -
  have "unat x < unat y" using assms by (simp add: word_less_nat_alt)
  moreover have "unat y < 256" by (rule unat_u8_bound)
  moreover have "unat (x + 1) = (unat x + 1) mod 256" by (simp add: unat_word_ariths)
  ultimately show ?thesis by simp
qed

lemma last_take_nth:
  assumes "0 < n" and "n \<le> length xs"
  shows "last (take n xs) = xs ! (n - 1)"
proof -
  have "take n xs \<noteq> []" using assms by auto
  then have "last (take n xs) = take n xs ! (length (take n xs) - 1)"
    by (rule last_conv_nth)
  then show ?thesis using assms by (simp add: min_absorb2)
qed

lemma top_index:
  assumes "t = uint (w :: 8 word) - 1" and "w \<noteq> 0"
  shows "nat t = unat w - 1" and "0 \<le> t" and "t < int n \<longleftrightarrow> unat w \<le> n"
proof -
  have u: "uint w = int (unat w)" by (rule uint_nat)
  have pos: "0 < unat w" using assms(2) by (simp add: unat_gt_0)
  show "nat t = unat w - 1" unfolding assms(1) u using pos by linarith
  show "0 \<le> t" unfolding assms(1) u using pos by linarith
  show "t < int n \<longleftrightarrow> unat w \<le> n" unfolding assms(1) u using pos by linarith
qed

lemma stack_shape_le:
  "stack_shape stack \<Longrightarrow> unat (stk_size stack) \<le> length (stk_slots stack)"
  by (simp add: stack_shape_def word_le_nat_alt)

lemma length_frames: "stack_shape stack \<Longrightarrow> length (frames stack) = unat (stk_size stack)"
  using stack_shape_le [of stack] by (simp add: frames_def)

lemma frames_Nil: "stack_shape stack \<Longrightarrow> (frames stack = []) = (stk_size stack = 0)"
  using length_frames [of stack] by (auto simp: unat_eq_zero)

lemma top_frame:
  assumes "stack_shape stack" and "stk_size stack \<noteq> 0"
  shows "in_array stack (stk_top stack)"
    and "stk_slots stack ! nat (stk_top stack) = last (frames stack)"
    and "\<not> stk_capacity stack < stk_size stack"
proof -
  have t: "stk_top stack = uint (stk_size stack) - 1"
    using assms(1) by (simp add: stack_shape_def)
  note ti = top_index [OF t assms(2)]
  have pos: "0 < unat (stk_size stack)" using assms(2) by (simp add: unat_gt_0)
  show "in_array stack (stk_top stack)"
    using ti(2) ti(3) [of "length (stk_slots stack)"] stack_shape_le [OF assms(1)]
    by (simp add: in_array_def)
  show "stk_slots stack ! nat (stk_top stack) = last (frames stack)"
    using ti(1) pos stack_shape_le [OF assms(1)] by (simp add: frames_def last_take_nth)
  show "\<not> stk_capacity stack < stk_size stack"
    using assms(1) by (simp add: stack_shape_def not_less)
qed

lemma stack_peek_frames:
  assumes "stack_shape stack"
  shows "stack_peek stack = Returns (if frames stack = [] then None else last (frames stack))"
proof (cases "stk_size stack = 0")
  case True
  then show ?thesis using frames_Nil [OF assms] by (simp add: stack_peek_def)
next
  case False
  then show ?thesis
    using top_frame [OF assms False] frames_Nil [OF assms] by (simp add: stack_peek_def)
qed

lemma stack_pop_frames:
  assumes "stack_shape stack"
  shows "(frames stack = [] \<and> stack_pop stack = Returns (None, stack)) \<or>
         (\<exists>stack'. frames stack \<noteq> [] \<and>
            stack_pop stack = Returns (last (frames stack), stack') \<and>
            stack_shape stack' \<and> frames stack' = butlast (frames stack) \<and>
            stk_capacity stack' = stk_capacity stack)"
proof (cases "stk_size stack = 0")
  case True
  then show ?thesis using frames_Nil [OF assms] by (simp add: stack_pop_def)
next
  case False
  let ?stack' = "stack\<lparr>stk_top := stk_top stack - 1, stk_size := stk_size stack - 1\<rparr>"
  have m1: "unat (stk_size stack - 1) = unat (stk_size stack) - 1"
    using False by (simp add: unat_minus_one)
  have pos: "0 < unat (stk_size stack)" using False by (simp add: unat_gt_0)
  have pop: "stack_pop stack = Returns (last (frames stack), ?stack')"
    using False top_frame [OF assms False] by (simp add: stack_pop_def)
  have "uint (stk_size stack - 1) = uint (stk_size stack) - 1"
    unfolding uint_nat m1 using pos by linarith
  moreover have "stk_size stack - 1 \<le> stk_capacity stack"
    using assms m1 by (auto simp: stack_shape_def word_le_nat_alt)
  ultimately have shape: "stack_shape ?stack'"
    using assms by (simp add: stack_shape_def)
  have fr: "frames ?stack' = butlast (frames stack)"
    using m1 stack_shape_le [OF assms] by (simp add: frames_def butlast_take)
  show ?thesis using pop shape fr False frames_Nil [OF assms] by simp
qed

lemma stack_push_frames:
  assumes "stack_shape stack"
  shows "stack_push stack (Some a) = Returns (1, stack) \<or>
         (frames stack = [] \<and> stack_push stack (Some a) = Undefined (Stack_slot (- 1))) \<or>
         (\<exists>stack'. frames stack \<noteq> [] \<and> stack_push stack (Some a) = Returns (0, stack') \<and>
            stack_shape stack' \<and> frames stack' = frames stack @ [Some a] \<and>
            stk_capacity stack' = stk_capacity stack)"
proof (cases "stk_capacity stack \<le> stk_size stack")
  case True
  then show ?thesis by (simp add: stack_push_def)
next
  case full: False
  then have lt: "stk_size stack < stk_capacity stack" by simp
  show ?thesis
  proof (cases "stk_size stack = 0")
    case True
    then have "stk_top stack = - 1" using assms by (simp add: stack_shape_def)
    then show ?thesis
      using True full frames_Nil [OF assms] by (simp add: stack_push_def in_array_def)
  next
    case False
    let ?n = "unat (stk_size stack)"
    let ?t = "stk_top stack + 1"
    let ?stack' = "stack\<lparr>stk_top := ?t, stk_slots := (stk_slots stack)[nat ?t := Some a],
                         stk_size := stk_size stack + 1\<rparr>"
    have p1: "unat (stk_size stack + 1) = Suc ?n"
      using lt by (rule unat_succ_below)
    have ltn: "?n < length (stk_slots stack)"
      using assms lt by (simp add: stack_shape_def word_less_nat_alt)
    have t: "?t = int ?n"
      using assms unfolding stack_shape_def uint_nat by linarith
    then have nt: "nat ?t = ?n" by linarith
    have "in_array stack ?t" unfolding in_array_def t using ltn by linarith
    moreover have "0 < stk_size stack" using False by (simp add: word_greater_zero_iff)
    ultimately have push: "stack_push stack (Some a) = Returns (0, ?stack')"
      using full by (simp add: stack_push_def Let_def)
    have "uint (stk_size stack + 1) - 1 = ?t"
      unfolding uint_nat p1 t by linarith
    moreover have "stk_size stack + 1 \<le> stk_capacity stack"
      using lt p1 by (simp add: word_le_nat_alt word_less_nat_alt)
    ultimately have shape: "stack_shape ?stack'"
      using assms by (simp add: stack_shape_def)
    have fr: "frames ?stack' = frames stack @ [Some a]"
      unfolding frames_def using p1 nt ltn by (simp add: take_Suc_conv_app_nth)
    show ?thesis using push shape fr False frames_Nil [OF assms] by simp
  qed
qed

subsection \<open>Kinds of objects under allocation and stores\<close>

lemma is_element_iff:
  "is_element m p \<longleftrightarrow> (\<exists>a e. p = Some a \<and> a < length (objs m) \<and> objs m ! a = Elem e)"
  by (auto simp: is_element_def split: option.splits obj.splits)

lemma is_open_attribute_iff:
  "is_open_attribute m p \<longleftrightarrow>
   (\<exists>a x. p = Some a \<and> a < length (objs m) \<and> objs m ! a = Attr x \<and> attr_value x = None)"
  by (auto simp: is_open_attribute_def split: option.splits obj.splits)

lemma alloc_objs: "alloc m = (ok, m1) \<Longrightarrow> objs m1 = objs m"
  by (auto simp: alloc_def split: prod.splits)

lemma new_obj_Some:
  "new_obj v m = (Some a, m1) \<Longrightarrow> a = length (objs m) \<and> objs m1 = objs m @ [v]"
  by (auto simp: new_obj_def split: prod.splits if_splits)

lemma new_obj_None: "new_obj v m = (None, m1) \<Longrightarrow> objs m1 = objs m"
  by (auto simp: new_obj_def split: prod.splits if_splits)

lemma is_element_objs: "objs m1 = objs m \<Longrightarrow> is_element m1 p = is_element m p"
  by (simp add: is_element_iff)

lemma is_open_attribute_objs:
  "objs m1 = objs m \<Longrightarrow> is_open_attribute m1 p = is_open_attribute m p"
  by (simp add: is_open_attribute_iff)

lemma is_element_append:
  "objs m1 = objs m @ [v] \<Longrightarrow> is_element m p \<Longrightarrow> is_element m1 p"
  by (auto simp: is_element_iff nth_append)

lemma is_element_store_Elem:
  assumes "is_element m p"
  shows "is_element (store m a (Elem e)) p"
proof -
  from assms obtain b e' where b: "p = Some b" "b < length (objs m)" "objs m ! b = Elem e'"
    by (auto simp: is_element_iff)
  then have "\<exists>e''. (objs m)[a := Elem e] ! b = Elem e''"
    by (cases "a = b") simp_all
  then show ?thesis using b by (simp add: is_element_iff store_def)
qed

lemma is_element_store_other:
  "is_element m p \<Longrightarrow> p \<noteq> Some a \<Longrightarrow> is_element (store m a v) p"
  by (auto simp: is_element_iff store_def nth_list_update)

lemma is_open_attribute_store_other:
  "is_open_attribute m p \<Longrightarrow> p \<noteq> Some a \<Longrightarrow> is_open_attribute (store m a v) p"
  by (auto simp: is_open_attribute_iff store_def nth_list_update)

lemma is_element_store_new:
  "a < length (objs m) \<Longrightarrow> is_element (store m a (Elem e)) (Some a)"
  by (simp add: is_element_iff store_def)

lemma is_open_attribute_store_new:
  "a < length (objs m) \<Longrightarrow>
   is_open_attribute (store m a (Attr \<lparr>attr_name = n, attr_value = None\<rparr>)) (Some a)"
  by (simp add: is_open_attribute_iff store_def)

lemma length_store: "length (objs (store m a v)) = length (objs m)"
  by (simp add: store_def)

lemma is_element_bound: "is_element m (Some a) \<Longrightarrow> a < length (objs m)"
  by (simp add: is_element_iff)

lemma element_at_is_element:
  "is_element m (Some a) \<Longrightarrow> \<exists>e. element_at m a = Returns e"
  by (auto simp: is_element_iff element_at_def)

lemma attribute_at_open:
  "is_open_attribute m (Some a) \<Longrightarrow> \<exists>x. attribute_at m a = Returns x \<and> attr_value x = None"
  by (auto simp: is_open_attribute_iff attribute_at_def)

lemma not_element_and_attribute:
  "is_element m p \<Longrightarrow> \<not> is_open_attribute m p"
  by (auto simp: is_element_iff is_open_attribute_iff)

lemma lilx_add_child_kept:
  assumes "lilx_add_child m parent child = Returns (rc, m')"
  shows "length (objs m') = length (objs m)"
    and "is_element m p \<Longrightarrow> is_element m' p"
  using assms
  by (auto simp: lilx_add_child_def length_store is_element_store_Elem
      is_element_objs [OF alloc_objs] alloc_objs
      split: outcome.splits prod.splits if_splits)

lemma lilx_add_attr_kept:
  assumes "lilx_add_attr m element attr = Returns (rc, m')"
  shows "length (objs m') = length (objs m)"
    and "is_element m p \<Longrightarrow> is_element m' p"
    and "is_open_attribute m p \<Longrightarrow> p \<noteq> Some element \<Longrightarrow> is_open_attribute m' p"
  using assms
  by (auto simp: lilx_add_attr_def length_store is_element_store_Elem
      is_open_attribute_store_other
      is_element_objs [OF alloc_objs] is_open_attribute_objs [OF alloc_objs] alloc_objs
      split: outcome.splits prod.splits if_splits)

subsection \<open>What the action handlers do to the frames\<close>

lemma list_all_kept:
  "list_all (is_element m) fs \<Longrightarrow> (\<And>p. is_element m p \<Longrightarrow> is_element m' p) \<Longrightarrow>
   list_all (is_element m') fs"
  by (auto simp: list_all_iff)

lemma lilx_elem_name_start_action_frames:
  assumes sh: "stack_shape stack"
    and el: "list_all (is_element m) (frames stack)"
    and act: "lilx_elem_name_start_action stack m tkn tr = Returns (rc, stack', m')"
  shows "stack_shape stack' \<and> stk_capacity stack' = stk_capacity stack \<and>
         list_all (is_element m') (frames stack') \<and>
         (frames stack' = frames stack \<or>
          (frames stack \<noteq> [] \<and> (\<exists>a. frames stack' = frames stack @ [Some a])))"
proof -
  obtain r m1 where n: "new_obj (Elem lilx_init_element) m = (r, m1)"
    by (cases "new_obj (Elem lilx_init_element) m")
  show ?thesis
  proof (cases r)
    case None
    with act n have "stack' = stack" "m' = m1"
      by (simp_all add: lilx_elem_name_start_action_def)
    moreover have "objs m1 = objs m" using new_obj_None n None by blast
    then have "is_element m1 = is_element m"
      using is_element_objs [of m1 m] by auto
    ultimately show ?thesis using sh el by simp
  next
    case (Some element)
    with n have element: "element = length (objs m)" and o1: "objs m1 = objs m @ [Elem lilx_init_element]"
      using new_obj_Some by blast+
    have k1: "is_element m1 p" if "is_element m p" for p
      using that o1 by (rule is_element_append [rotated])
    obtain ok m2 where a: "alloc m1 = (ok, m2)" by (cases "alloc m1")
    have o2: "objs m2 = objs m1" using a by (rule alloc_objs)
    have k2: "is_element m2 p" if "is_element m p" for p
      using k1 [OF that] is_element_objs [OF o2] by simp
    have fresh: "p \<noteq> Some element" if "is_element m p" for p
      using that element by (auto simp: is_element_iff)
    show ?thesis
    proof (cases ok)
      case False
      with act n Some a have "stack' = stack" "m' = store m2 element Freed"
        by (auto simp: lilx_elem_name_start_action_def)
      moreover have "is_element (store m2 element Freed) p" if "is_element m p" for p
        using k2 [OF that] fresh [OF that] by (rule is_element_store_other)
      ultimately show ?thesis using sh list_all_kept [OF el] by simp
    next
      case True
      define m3 where "m3 = store m2 element (Elem (lilx_init_element\<lparr>elem_name := Some tkn\<rparr>))"
      have k3: "is_element m3 p" if "is_element m p" for p
        using k2 [OF that] by (simp add: m3_def is_element_store_Elem)
      have new3: "is_element m3 (Some element)"
        unfolding m3_def by (rule is_element_store_new) (simp add: o2 o1 element)
      define parent where "parent = (if frames stack = [] then None else last (frames stack))"
      have peek: "stack_peek stack = Returns parent"
        using stack_peek_frames [OF sh] by (simp add: parent_def)
      define linked where
        "linked = (case parent of None \<Rightarrow> Returns (0, m3) | Some p \<Rightarrow> lilx_add_child m3 p element)"
      have act': "(case linked of
                     Undefined f \<Rightarrow> Undefined f
                   | Returns (rc1, m4) \<Rightarrow>
                      if rc1 \<noteq> 0 then Returns (1, stack, store m4 element Freed)
                      else if strstr tr ''/>'' then Returns (0, stack, m4)
                      else
                        (case stack_push stack (Some element) of
                           Undefined f \<Rightarrow> Undefined f
                         | Returns (rc', stack'') \<Rightarrow>
                            if rc' \<noteq> 0 then Returns (1, stack'', store m4 element Freed)
                            else Returns (0, stack'', m4))) = Returns (rc, stack', m')"
        using act n Some a True peek unfolding m3_def linked_def
        by (simp add: lilx_elem_name_start_action_def Let_def)
      then obtain rc1 m4 where l: "linked = Returns (rc1, m4)"
        by (cases linked) auto
      have k4: "is_element m4 p" if "is_element m3 p" for p
      proof (cases parent)
        case None
        with l that show ?thesis by (simp add: linked_def)
      next
        case (Some q)
        with l have "lilx_add_child m3 q element = Returns (rc1, m4)" by (simp add: linked_def)
        from lilx_add_child_kept(2) [OF this that] show ?thesis .
      qed
      have k: "is_element m4 p" if "is_element m p" for p
        using k4 [OF k3 [OF that]] .
      have new4: "is_element m4 (Some element)" using k4 [OF new3] .
      have kf: "is_element (store m4 element Freed) p" if "is_element m p" for p
        using k [OF that] fresh [OF that] by (rule is_element_store_other)
      show ?thesis
      proof (cases "rc1 \<noteq> 0 \<or> strstr tr ''/>''")
        case True
        with act' l have "stack' = stack" "m' = m4 \<or> m' = store m4 element Freed"
          by (auto split: if_splits)
        then show ?thesis using sh list_all_kept [OF el k] list_all_kept [OF el kf] by auto
      next
        case False
        with act' l have push: "(case stack_push stack (Some element) of
                           Undefined f \<Rightarrow> Undefined f
                         | Returns (rc', stack'') \<Rightarrow>
                            if rc' \<noteq> 0 then Returns (1, stack'', store m4 element Freed)
                            else Returns (0, stack'', m4)) = Returns (rc, stack', m')"
          by simp
        from stack_push_frames [OF sh, of element] show ?thesis
        proof (elim disjE exE conjE)
          assume "stack_push stack (Some element) = Returns (1, stack)"
          with push have "stack' = stack" "m' = store m4 element Freed" by simp_all
          then show ?thesis using sh list_all_kept [OF el kf] by simp
        next
          assume "stack_push stack (Some element) = Undefined (Stack_slot (- 1))"
          with push show ?thesis by simp
        next
          fix stack''
          assume ne: "frames stack \<noteq> []"
            and p: "stack_push stack (Some element) = Returns (0, stack'')"
            and s: "stack_shape stack''" and f: "frames stack'' = frames stack @ [Some element]"
            and c: "stk_capacity stack'' = stk_capacity stack"
          from push p have "stack' = stack''" "m' = m4" by simp_all
          then show ?thesis using s f c ne new4 list_all_kept [OF el k] by simp
        qed
      qed
    qed
  qed
qed

lemma lilx_elem_name_end_action_frames:
  assumes sh: "stack_shape stack"
    and act: "lilx_elem_name_end_action stack m tkn tr = Returns (rc, stack', m')"
  shows "stack_shape stack' \<and> stk_capacity stack' = stk_capacity stack \<and> m' = m \<and>
         (frames stack' = frames stack \<or> frames stack' = butlast (frames stack))"
proof -
  define top where "top = (if frames stack = [] then None else last (frames stack))"
  have peek: "stack_peek stack = Returns top"
    using stack_peek_frames [OF sh] by (simp add: top_def)
  show ?thesis
  proof (cases top)
    case None
    with act peek have "stack' = stack" "m' = m"
      by (simp_all add: lilx_elem_name_end_action_def)
    then show ?thesis using sh by simp
  next
    case (Some element)
    show ?thesis
    proof (cases "element_at m element")
      case (Undefined f)
      with act peek Some show ?thesis by (simp add: lilx_elem_name_end_action_def)
    next
      case (Returns e)
      show ?thesis
      proof (cases "elem_name e")
        case None
        with act peek Some Returns show ?thesis by (simp add: lilx_elem_name_end_action_def)
      next
        case nm: (Some nm)
        show ?thesis
        proof (cases "strncmp_eq nm tkn (length tkn)")
          case False
          with act peek Some Returns nm have "stack' = stack" "m' = m"
            by (simp_all add: lilx_elem_name_end_action_def)
          then show ?thesis using sh by simp
        next
          case True
          with act peek Some Returns nm have pop:
            "(case stack_pop stack of
                Undefined f \<Rightarrow> Undefined f
              | Returns (popped, stack'') \<Rightarrow>
                 if popped \<noteq> Some element then Returns (1, stack'', m)
                 else Returns (0, stack'', m)) = Returns (rc, stack', m')"
            by (simp add: lilx_elem_name_end_action_def)
          from stack_pop_frames [OF sh] show ?thesis
          proof (elim disjE exE conjE)
            assume "stack_pop stack = Returns (None, stack)"
            with pop have "stack' = stack" "m' = m" by simp_all
            then show ?thesis using sh by simp
          next
            fix stack''
            assume p: "stack_pop stack = Returns (last (frames stack), stack'')"
              and s: "stack_shape stack''" and f: "frames stack'' = butlast (frames stack)"
              and c: "stk_capacity stack'' = stk_capacity stack"
            from pop p have "stack' = stack''" "m' = m" by (simp_all split: if_splits)
            then show ?thesis using s f c by simp
          qed
        qed
      qed
    qed
  qed
qed

lemma last_in_list_all: "list_all P fs \<Longrightarrow> fs \<noteq> [] \<Longrightarrow> P (last fs)"
  by (simp add: list_all_iff)

lemma lilx_elem_action_frames:
  assumes sh: "stack_shape stack"
    and el: "list_all (is_element m) (frames stack)"
    and act: "lilx_elem_action stack m tkn tr = Returns (rc, stack', m')"
  shows "stack' = stack \<and> list_all (is_element m') (frames stack)"
proof -
  define top where "top = (if frames stack = [] then None else last (frames stack))"
  have peek: "stack_peek stack = Returns top"
    using stack_peek_frames [OF sh] by (simp add: top_def)
  show ?thesis
  proof (cases top)
    case None
    with act peek have "stack' = stack" "m' = m" by (simp_all add: lilx_elem_action_def)
    then show ?thesis using el by simp
  next
    case (Some element)
    show ?thesis
    proof (cases "element_at m element")
      case (Undefined f)
      with act peek Some show ?thesis by (simp add: lilx_elem_action_def)
    next
      case (Returns e)
      obtain ok m1 where a: "alloc m = (ok, m1)" by (cases "alloc m")
      have o: "objs m1 = objs m" using a by (rule alloc_objs)
      from act peek Some Returns a
      have r: "stack' = stack"
        "m' = store m1 element (Elem (e\<lparr>elem_body := (if ok then Some tkn else None)\<rparr>))"
        by (simp_all add: lilx_elem_action_def split: if_splits)
      have "is_element m' p" if "is_element m p" for p
      proof -
        have "is_element m1 p" using that is_element_objs [OF o, of p] by simp
        then show ?thesis unfolding r(2) by (rule is_element_store_Elem)
      qed
      then show ?thesis using r(1) list_all_kept [OF el] by blast
    qed
  qed
qed

lemma lilx_attr_name_action_frames:
  assumes sh: "stack_shape stack"
    and el: "list_all (is_element m) (frames stack)"
    and act: "lilx_attr_name_action stack m tkn tr = Returns (rc, stack', m')"
  shows "stack_shape stack' \<and> stk_capacity stack' = stk_capacity stack \<and>
         (if rc = 0
          then frames stack \<noteq> [] \<and> frames stack' \<noteq> [] \<and>
               butlast (frames stack') = frames stack \<and>
               is_open_attribute m' (last (frames stack')) \<and>
               list_all (is_element m') (frames stack)
          else stack' = stack)"
proof -
  obtain r m1 where n: "new_obj (Attr \<lparr>attr_name = None, attr_value = None\<rparr>) m = (r, m1)"
    by (cases "new_obj (Attr \<lparr>attr_name = None, attr_value = None\<rparr>) m")
  show ?thesis
  proof (cases r)
    case None
    with act n have "stack' = stack" "rc = 1" by (simp_all add: lilx_attr_name_action_def)
    then show ?thesis using sh by simp
  next
    case (Some attr)
    with n have attr: "attr = length (objs m)"
      and o1: "objs m1 = objs m @ [Attr \<lparr>attr_name = None, attr_value = None\<rparr>]"
      using new_obj_Some by blast+
    obtain ok m2 where a: "alloc m1 = (ok, m2)" by (cases "alloc m1")
    have o2: "objs m2 = objs m1" using a by (rule alloc_objs)
    show ?thesis
    proof (cases ok)
      case False
      with act n Some a have "stack' = stack" "rc = 1"
        by (simp_all add: lilx_attr_name_action_def)
      then show ?thesis using sh by simp
    next
      case True
      define m3 where "m3 = store m2 attr (Attr \<lparr>attr_name = Some tkn, attr_value = None\<rparr>)"
      have k3: "is_element m3 p" if "is_element m p" for p
      proof -
        have "is_element m1 p" using o1 that by (rule is_element_append)
        then have "is_element m2 p" using is_element_objs [OF o2, of p] by simp
        moreover have "p \<noteq> Some attr" using that attr by (auto simp: is_element_iff)
        ultimately show ?thesis unfolding m3_def by (rule is_element_store_other)
      qed
      have new3: "is_open_attribute m3 (Some attr)"
        unfolding m3_def by (rule is_open_attribute_store_new) (simp add: o2 o1 attr)
      define top where "top = (if frames stack = [] then None else last (frames stack))"
      have peek: "stack_peek stack = Returns top"
        using stack_peek_frames [OF sh] by (simp add: top_def)
      show ?thesis
      proof (cases top)
        case None
        with act n Some a True peek have "stack' = stack" "rc = 1"
          by (simp_all add: lilx_attr_name_action_def Let_def)
        then show ?thesis using sh by simp
      next
        case top: (Some element)
        then have ne: "frames stack \<noteq> []" by (simp add: top_def split: if_splits)
        have "is_element m top" using last_in_list_all [OF el ne] ne by (simp add: top_def)
        then have element: "element \<noteq> attr" using top attr by (auto simp: is_element_iff)
        from act n Some a True peek top
        have act': "(case lilx_add_attr m3 element attr of
                       Undefined f \<Rightarrow> Undefined f
                     | Returns (rc1, m4) \<Rightarrow>
                        if rc1 \<noteq> 0 then Returns (1, stack, store m4 attr Freed)
                        else
                          (case stack_push stack (Some attr) of
                             Undefined f \<Rightarrow> Undefined f
                           | Returns (rc', stack'') \<Rightarrow>
                              if rc' \<noteq> 0 then Returns (1, stack'', store m4 attr Freed)
                              else Returns (0, stack'', m4))) = Returns (rc, stack', m')"
          unfolding m3_def by (simp add: lilx_attr_name_action_def Let_def)
        then obtain rc1 m4 where l: "lilx_add_attr m3 element attr = Returns (rc1, m4)"
          by (cases "lilx_add_attr m3 element attr") auto
        have k: "is_element m4 p" if "is_element m p" for p
          using lilx_add_attr_kept(2) [OF l k3 [OF that]] .
        have new4: "is_open_attribute m4 (Some attr)"
          using lilx_add_attr_kept(3) [OF l new3] element by simp
        show ?thesis
        proof (cases "rc1 \<noteq> 0")
          case True
          with act' l have "stack' = stack" "rc = 1" by simp_all
          then show ?thesis using sh by simp
        next
          case False
          with act' l have push: "(case stack_push stack (Some attr) of
                             Undefined f \<Rightarrow> Undefined f
                           | Returns (rc', stack'') \<Rightarrow>
                              if rc' \<noteq> 0 then Returns (1, stack'', store m4 attr Freed)
                              else Returns (0, stack'', m4)) = Returns (rc, stack', m')"
            by simp
          from stack_push_frames [OF sh, of attr] show ?thesis
          proof (elim disjE exE conjE)
            assume "stack_push stack (Some attr) = Returns (1, stack)"
            with push have "stack' = stack" "rc = 1" by simp_all
            then show ?thesis using sh by simp
          next
            assume "stack_push stack (Some attr) = Undefined (Stack_slot (- 1))"
            with push show ?thesis by simp
          next
            fix stack''
            assume p: "stack_push stack (Some attr) = Returns (0, stack'')"
              and s: "stack_shape stack''" and f: "frames stack'' = frames stack @ [Some attr]"
              and c: "stk_capacity stack'' = stk_capacity stack"
            from push p have "stack' = stack''" "m' = m4" "rc = 0" by simp_all
            then show ?thesis using s f c ne new4 list_all_kept [OF el k] by simp
          qed
        qed
      qed
    qed
  qed
qed

lemma list_all_butlast: "list_all P fs \<Longrightarrow> list_all P (butlast fs)"
  by (auto simp: list_all_iff dest: in_set_butlastD)

lemma lilx_attr_val_action_frames:
  assumes sh: "stack_shape stack"
    and ne: "frames stack \<noteq> []"
    and op: "is_open_attribute m (last (frames stack))"
    and el: "list_all (is_element m) (butlast (frames stack))"
    and act: "lilx_attr_val_action stack m tkn tr = Returns (rc, stack', m')"
  shows "stack_shape stack' \<and> stk_capacity stack' = stk_capacity stack \<and>
         (frames stack' = frames stack \<or> frames stack' = butlast (frames stack) \<or>
          frames stack' = butlast (butlast (frames stack))) \<and>
         (rc = 0 \<longrightarrow> list_all (is_element m') (frames stack'))"
proof -
  from op obtain attr where top: "last (frames stack) = Some attr"
    by (auto simp: is_open_attribute_iff)
  have peek: "stack_peek stack = Returns (Some attr)"
    using stack_peek_frames [OF sh] ne top by simp
  from attribute_at_open op top obtain x where
    x: "attribute_at m attr = Returns x" "attr_value x = None" by auto
  obtain ok m1 where a: "alloc m = (ok, m1)" by (cases "alloc m")
  have o: "objs m1 = objs m" using a by (rule alloc_objs)
  show ?thesis
  proof (cases ok)
    case False
    with act peek x a have "stack' = stack" "rc = 1"
      by (simp_all add: lilx_attr_val_action_def)
    then show ?thesis using sh by simp
  next
    case True
    define m2 where "m2 = store m1 attr (Attr (x\<lparr>attr_value := Some tkn\<rparr>))"
    define m3 where "m3 = store m1 attr (Attr_value_freed (x\<lparr>attr_value := Some tkn\<rparr>))"
    have k: "is_element m2 p" if "is_element m p" for p
    proof -
      have "is_element m1 p" using that is_element_objs [OF o, of p] by simp
      moreover have "p \<noteq> Some attr"
        using that op top not_element_and_attribute [of m p] by auto
      ultimately show ?thesis unfolding m2_def by (rule is_element_store_other)
    qed
    from act peek x a True
    have act': "(case stack_pop stack of
                   Undefined f \<Rightarrow> Undefined f
                 | Returns (popped, stack1) \<Rightarrow>
                    if popped \<noteq> Some attr then Returns (1, stack1, m3)
                    else if strstr tr ''/>''
                    then (case stack_pop stack1 of
                            Undefined f \<Rightarrow> Undefined f
                          | Returns (popped2, stack2) \<Rightarrow>
                             if popped2 = None then Returns (1, stack2, m3)
                             else Returns (0, stack2, m2))
                    else Returns (0, stack1, m2)) = Returns (rc, stack', m')"
      unfolding m2_def m3_def by (simp add: lilx_attr_val_action_def Let_def)
    from stack_pop_frames [OF sh] ne obtain stack1 where
      p1: "stack_pop stack = Returns (Some attr, stack1)"
      and s1: "stack_shape stack1" and f1: "frames stack1 = butlast (frames stack)"
      and c1: "stk_capacity stack1 = stk_capacity stack"
      using top by auto
    have el2: "list_all (is_element m2) (frames stack1)"
      using list_all_kept [OF el k] f1 by simp
    show ?thesis
    proof (cases "strstr tr ''/>''")
      case False
      with act' p1 have "stack' = stack1" "m' = m2" by simp_all
      then show ?thesis using s1 f1 c1 el2 by simp
    next
      case True
      with act' p1 have pop2: "(case stack_pop stack1 of
                            Undefined f \<Rightarrow> Undefined f
                          | Returns (popped2, stack2) \<Rightarrow>
                             if popped2 = None then Returns (1, stack2, m3)
                             else Returns (0, stack2, m2)) = Returns (rc, stack', m')"
        by simp
      from stack_pop_frames [OF s1] show ?thesis
      proof (elim disjE exE conjE)
        assume "stack_pop stack1 = Returns (None, stack1)"
        with pop2 have "stack' = stack1" "rc = 1" by simp_all
        then show ?thesis using s1 f1 c1 by simp
      next
        fix stack2
        assume p2: "stack_pop stack1 = Returns (last (frames stack1), stack2)"
          and s2: "stack_shape stack2" and f2: "frames stack2 = butlast (frames stack1)"
          and c2: "stk_capacity stack2 = stk_capacity stack1"
        from pop2 p2 have "stack' = stack2" "rc = 0 \<longrightarrow> m' = m2"
          by (auto split: if_splits)
        then show ?thesis using s2 f2 c2 f1 c1 list_all_butlast [OF el2] by auto
      qed
    qed
  qed
qed

subsection \<open>Targets of the transitions\<close>

lemma lilx_try_transition_out:
  assumes "lilx_try_transition xml i tran acc = Returns acc'"
  shows "acc' = acc \<or> (\<exists>off tr. tran = Some tr \<and> snd acc' = Some (i, off, tr))"
  using assms
  by (auto simp: lilx_try_transition_def Let_def split: option.splits outcome.splits if_splits)

lemma lilx_scan_choices_out:
  assumes "lilx_scan_choices xml i trs acc = Returns acc'"
  shows "snd acc' = snd acc \<or> (\<exists>off tr. Some tr \<in> set trs \<and> snd acc' = Some (i, off, tr))"
  using assms
proof (induction trs arbitrary: acc)
  case Nil
  then show ?case by simp
next
  case (Cons tran trs)
  from Cons.prems obtain acc1 where 1: "lilx_try_transition xml i tran acc = Returns acc1"
    and 2: "lilx_scan_choices xml i trs acc1 = Returns acc'"
    by (cases "lilx_try_transition xml i tran acc") auto
  from lilx_try_transition_out [OF 1] Cons.IH [OF 2] show ?case by auto
qed

lemma lilx_scan_states_out:
  assumes "lilx_scan_states xml rows acc = Returns acc'"
  shows "snd acc' = snd acc \<or>
         (\<exists>i trs off tr. (i, trs) \<in> set rows \<and> Some tr \<in> set trs \<and>
            snd acc' = Some (i, off, tr))"
  using assms
proof (induction rows arbitrary: acc)
  case Nil
  then show ?case by simp
next
  case (Cons row rows)
  obtain i trs where row: "row = (i, trs)" by (cases row)
  from Cons.prems row obtain acc1 where 1: "lilx_scan_choices xml i trs acc = Returns acc1"
    and 2: "lilx_scan_states xml rows acc1 = Returns acc'"
    by (cases "lilx_scan_choices xml i trs acc") auto
  from lilx_scan_choices_out [OF 1] Cons.IH [OF 2] row show ?case by auto
qed

lemma lilx_get_next_state_table:
  assumes "lilx_get_next_state state xml = Returns (Some (ns, off, tr))"
  shows "\<exists>trs. (ns, trs) \<in> set (zip all_states (lilx_transitions state)) \<and> Some tr \<in> set trs"
proof -
  from assms obtain lst where
    "lilx_scan_states xml (zip all_states (lilx_transitions state)) (- 1, None) =
     Returns (lst, Some (ns, off, tr))"
    by (auto simp: lilx_get_next_state_def split: outcome.splits if_splits)
  from lilx_scan_states_out [OF this] show ?thesis by auto
qed

lemma table_attr_val:
  assumes "(ns, trs) \<in> set (zip all_states (lilx_transitions state))" and "Some tr \<in> set trs"
  shows "(ns = ATTR_VAL) = (state = ATTR_NAME)"
  using assms by (cases state) (auto simp: all_states_def lilx_transitions_def)

lemma lilx_get_next_state_attr_val:
  "lilx_get_next_state state xml = Returns (Some (ns, off, tr)) \<Longrightarrow>
   (ns = ATTR_VAL) = (state = ATTR_NAME)"
  using lilx_get_next_state_table table_attr_val by blast

subsection \<open>The invariants along a run\<close>

lemma hd_butlast: "butlast xs \<noteq> [] \<Longrightarrow> hd (butlast xs) = hd xs"
  by (cases xs) (auto split: if_splits)

lemma stack_inv_step:
  assumes "stack_inv stack" and "stack_shape stack'"
    and "stk_capacity stack' = stk_capacity stack"
    and "frames stack' = frames stack \<or>
         (frames stack \<noteq> [] \<and> (\<exists>a. frames stack' = frames stack @ [Some a])) \<or>
         frames stack' = butlast (frames stack) \<or>
         frames stack' = butlast (butlast (frames stack))"
  shows "stack_inv stack'"
proof -
  have root: "frames stack = [] \<or> hd (frames stack) = Some root"
    using assms(1) by (simp add: stack_inv_def)
  have "frames stack' = [] \<or> hd (frames stack') = Some root"
    using assms(4)
  proof (elim disjE conjE exE)
    assume "frames stack' = frames stack"
    then show ?thesis using root by simp
  next
    fix a assume "frames stack \<noteq> []" "frames stack' = frames stack @ [Some a]"
    then show ?thesis using root by simp
  next
    assume f: "frames stack' = butlast (frames stack)"
    show ?thesis
    proof (cases "butlast (frames stack) = []")
      case True
      then show ?thesis using f by simp
    next
      case False
      then have "hd (butlast (frames stack)) = hd (frames stack)" "frames stack \<noteq> []"
        using hd_butlast [of "frames stack"] by auto
      then show ?thesis using f root by simp
    qed
  next
    assume f: "frames stack' = butlast (butlast (frames stack))"
    show ?thesis
    proof (cases "frames stack' = []")
      case True
      then show ?thesis by simp
    next
      case False
      then have "butlast (frames stack) \<noteq> []" using f by auto
      then have "hd (butlast (frames stack)) = hd (frames stack)" "frames stack \<noteq> []"
        using hd_butlast [of "frames stack"] by auto
      moreover have "hd (frames stack') = hd (butlast (frames stack))"
        using False f hd_butlast [of "butlast (frames stack)"] by simp
      ultimately show ?thesis using root by simp
    qed
  qed
  then show ?thesis using assms(1,2,3) by (simp add: stack_inv_def)
qed

lemma lilx_actions_inv:
  assumes si: "stack_inv stack" and fk: "frame_kinds_at st stack m"
    and act: "lilx_actions st stack m tkn tr = Returns (rc, stack', m')"
  shows "stack_inv stack'"
    and "rc = 0 \<Longrightarrow> (ns = ATTR_VAL) = (st = ATTR_NAME) \<Longrightarrow> frame_kinds_at ns stack' m'"
proof -
  have sh: "stack_shape stack" using si by (simp add: stack_inv_def)
  have "stack_inv stack' \<and>
        (rc = 0 \<longrightarrow> (ns = ATTR_VAL) = (st = ATTR_NAME) \<longrightarrow> frame_kinds_at ns stack' m')"
  proof (cases st)
    case ELEM_NAME_START
    then have el: "list_all (is_element m) (frames stack)"
      using fk by (simp add: frame_kinds_at_def)
    from act ELEM_NAME_START
    have "lilx_elem_name_start_action stack m tkn tr = Returns (rc, stack', m')"
      by (simp add: lilx_actions_def)
    from lilx_elem_name_start_action_frames [OF sh el this] ELEM_NAME_START
    show ?thesis using stack_inv_step [OF si, of stack'] by (auto simp: frame_kinds_at_def)
  next
    case ELEM_NAME_END
    then have el: "list_all (is_element m) (frames stack)"
      using fk by (simp add: frame_kinds_at_def)
    from act ELEM_NAME_END
    have "lilx_elem_name_end_action stack m tkn tr = Returns (rc, stack', m')"
      by (simp add: lilx_actions_def)
    from lilx_elem_name_end_action_frames [OF sh this] ELEM_NAME_END
    show ?thesis using stack_inv_step [OF si, of stack'] el list_all_butlast [OF el]
      by (auto simp: frame_kinds_at_def)
  next
    case ATTR_NAME
    then have el: "list_all (is_element m) (frames stack)"
      using fk by (simp add: frame_kinds_at_def)
    from act ATTR_NAME
    have "lilx_attr_name_action stack m tkn tr = Returns (rc, stack', m')"
      by (simp add: lilx_actions_def)
    note r = lilx_attr_name_action_frames [OF sh el this]
    show ?thesis
    proof (cases "rc = 0")
      case True
      with r have f: "frames stack \<noteq> []" "frames stack' \<noteq> []"
        "butlast (frames stack') = frames stack"
        "is_open_attribute m' (last (frames stack'))"
        "list_all (is_element m') (frames stack)"
        and s: "stack_shape stack'" "stk_capacity stack' = stk_capacity stack"
        by simp_all
      have "frames stack' = frames stack @ [last (frames stack')]"
        using f(2,3) append_butlast_last_id [of "frames stack'"] by simp
      moreover obtain a where "last (frames stack') = Some a"
        using f(4) by (auto simp: is_open_attribute_iff)
      ultimately have "stack_inv stack'"
        using stack_inv_step [OF si s] f(1) by auto
      then show ?thesis using ATTR_NAME f by (simp add: frame_kinds_at_def)
    next
      case False
      with r have "stack' = stack" by simp
      then show ?thesis using si False by simp
    qed
  next
    case ATTR_VAL
    then have t: "frames stack \<noteq> []" "is_open_attribute m (last (frames stack))"
      "list_all (is_element m) (butlast (frames stack))"
      using fk by (simp_all add: frame_kinds_at_def)
    from act ATTR_VAL
    have "lilx_attr_val_action stack m tkn tr = Returns (rc, stack', m')"
      by (simp add: lilx_actions_def)
    from lilx_attr_val_action_frames [OF sh t this] ATTR_VAL
    show ?thesis using stack_inv_step [OF si, of stack'] by (auto simp: frame_kinds_at_def)
  next
    case ELEM
    then have el: "list_all (is_element m) (frames stack)"
      using fk by (simp add: frame_kinds_at_def)
    from act ELEM
    have "lilx_elem_action stack m tkn tr = Returns (rc, stack', m')"
      by (simp add: lilx_actions_def)
    from lilx_elem_action_frames [OF sh el this] ELEM
    show ?thesis using si by (auto simp: frame_kinds_at_def)
  next
    case COMMENT
    with act have "stack' = stack" "m' = m"
      by (simp_all add: lilx_actions_def lilx_comment_action_def)
    then show ?thesis using si fk COMMENT by (auto simp: frame_kinds_at_def)
  next
    case END
    with act have "stack' = stack" "m' = m"
      by (simp_all add: lilx_actions_def lilx_end_action_def)
    then show ?thesis using si fk END by (auto simp: frame_kinds_at_def)
  qed
  then show "stack_inv stack'"
    and "rc = 0 \<Longrightarrow> (ns = ATTR_VAL) = (st = ATTR_NAME) \<Longrightarrow> frame_kinds_at ns stack' m'"
    by simp_all
qed

lemma lilx_iteration_inv:
  assumes si: "stack_inv (c_stack c)" and fk: "frame_kinds c"
  shows "lilx_iteration c = Continue c' \<Longrightarrow> stack_inv (c_stack c') \<and> frame_kinds c'"
    and "lilx_iteration c = Break c' \<Longrightarrow> stack_inv (c_stack c') \<and> c_state c' = c_state c"
proof -
  have "(lilx_iteration c = Continue c' \<longrightarrow> stack_inv (c_stack c') \<and> frame_kinds c') \<and>
        (lilx_iteration c = Break c' \<longrightarrow> stack_inv (c_stack c') \<and> c_state c' = c_state c)"
  proof (cases "lilx_get_next_state (c_state c) (c_xml c)")
    case (Undefined f)
    then show ?thesis by (simp add: lilx_iteration_def)
  next
    case (Returns r)
    show ?thesis
    proof (cases r)
      case None
      with Returns si fk show ?thesis
        by (auto simp: lilx_iteration_def frame_kinds_def split: if_splits list.splits)
    next
      case (Some w)
      obtain ns off tr where w: "w = (ns, off, tr)" by (cases w)
      note nx = lilx_get_next_state_attr_val [OF Returns [unfolded Some w]]
      show ?thesis
      proof (cases "LILX_MAX_TOKEN_LENGTH \<le> length (c_token c)")
        case True
        with Returns Some w show ?thesis by (simp add: lilx_iteration_def)
      next
        case False
        show ?thesis
        proof (cases "lilx_actions (c_state c) (c_stack c) (c_mem c) (c_token c) tr")
          case (Undefined f)
          with Returns Some w False show ?thesis by (simp add: lilx_iteration_def)
        next
          case act: (Returns res)
          obtain rc stack' m' where res: "res = (rc, stack', m')" by (cases res)
          note a = act [unfolded res]
          have fk': "frame_kinds_at (c_state c) (c_stack c) (c_mem c)"
            using fk by (simp add: frame_kinds_def)
          note i1 = lilx_actions_inv(1) [OF si fk' a]
          note i2 = lilx_actions_inv(2) [OF si fk' a _ nx]
          show ?thesis
          proof (cases "rc = 0")
            case True
            with Returns Some w False a i1 i2 show ?thesis
              by (auto simp: lilx_iteration_def frame_kinds_def)
          next
            case nz: False
            with Returns Some w False a i1 show ?thesis
              by (auto simp: lilx_iteration_def)
          qed
        qed
      qed
    qed
  qed
  then show "lilx_iteration c = Continue c' \<Longrightarrow> stack_inv (c_stack c') \<and> frame_kinds c'"
    and "lilx_iteration c = Break c' \<Longrightarrow> stack_inv (c_stack c') \<and> c_state c' = c_state c"
    by simp_all
qed

lemma reachable_inv:
  assumes "reachable c0 c" and "stack_inv (c_stack c0)" and "frame_kinds c0"
  shows "stack_inv (c_stack c) \<and> frame_kinds c"
  using assms
proof (induction rule: reachable.induct)
  case reachable_start
  then show ?case by simp
next
  case (reachable_step c x xs c')
  then have "stack_inv (c_stack c)" "frame_kinds c" by simp_all
  from lilx_iteration_inv(1) [OF this reachable_step.hyps(5)] show ?case .
qed

lemma lilx_loop_inv:
  assumes loop: "lilx_loop c0 = Some r"
  shows "stack_inv (c_stack c0) \<and> frame_kinds c0 \<longrightarrow>
         (\<forall>c. r = Returns c \<longrightarrow> stack_inv (c_stack c))"
  apply (rule lilx_loop.raw_induct
      [where P = "\<lambda>c0 r. stack_inv (c_stack c0) \<and> frame_kinds c0 \<longrightarrow>
                          (\<forall>c. r = Returns c \<longrightarrow> stack_inv (c_stack c))", OF _ loop])
  subgoal premises prems for f c r
  proof (intro impI allI, elim conjE)
    fix d
    assume si: "stack_inv (c_stack c)" and fk: "frame_kinds c" and r: "r = Returns d"
    note eq = prems(2)
    show "stack_inv (c_stack d)"
    proof (cases "c_state c = END")
      case True
      with eq r si show ?thesis by simp
    next
      case False
      show ?thesis
      proof (cases "c_xml c")
        case Nil
        with eq False r show ?thesis by simp
      next
        case (Cons x xs)
        show ?thesis
        proof (cases "x = CHR 0x00")
          case True
          with eq False Cons r si show ?thesis by simp
        next
          case nz: False
          show ?thesis
          proof (cases "lilx_iteration c")
            case (Continue c')
            with eq False Cons nz have fc: "f c' = Some r" by simp
            from prems(1) [OF fc] lilx_iteration_inv(1) [OF si fk Continue] r
            show ?thesis by blast
          next
            case (Break c')
            with eq False Cons nz r have "d = c'" by simp
            with lilx_iteration_inv(2) [OF si fk Break] show ?thesis by simp
          next
            case (Stuck g)
            with eq False Cons nz r show ?thesis by simp
          qed
        qed
      qed
    qed
  qed
  done

lemma lilx_setup_inv:
  assumes "lilx_setup raw b = Inr c0"
  shows "stack_inv (c_stack c0)" and "frame_kinds c0"
proof -
  define st where "st = \<lparr>stk_capacity = LILX_STACK_SIZE, stk_size = 1, stk_top = 0,
    stk_slots = (replicate (unat LILX_STACK_SIZE) None)[0 := Some root]\<rparr>"
  from assms have c0: "c_stack c0 = st" "c_state c0 = ELEM_NAME_START"
      "objs (c_mem c0) = [Elem (lilx_init_element\<lparr>elem_name := Some ''root''\<rparr>)]"
    by (auto simp: lilx_setup_def st_def stack_create_def malloc_def alloc_def stack_push_def
        stack_free_def in_array_def LILX_STACK_SIZE_def Let_def store_def root_def
        split: if_splits prod.splits outcome.splits option.splits nat.splits)
  have fr: "frames st = [Some root]"
    by (simp add: frames_def st_def LILX_STACK_SIZE_def take_Suc_conv_app_nth)
  have "stack_shape st"
    by (simp add: stack_shape_def st_def LILX_STACK_SIZE_def)
  then show "stack_inv (c_stack c0)" using fr c0(1) by (simp add: stack_inv_def st_def)
  have "is_element (c_mem c0) (Some root)"
    by (simp add: is_element_iff c0(3) root_def)
  then show "frame_kinds c0"
    using c0(1,2) fr by (simp add: frame_kinds_def frame_kinds_at_def)
qed

subsection \<open>No frame is used through the wrong type\<close>

lemma stack_push_kind: "stack_push stack p \<noteq> Undefined Wrong_kind"
  by (simp add: stack_push_def Let_def)

lemma stack_pop_kind: "stack_pop stack \<noteq> Undefined Wrong_kind"
  by (simp add: stack_pop_def)

lemma top_is_element:
  assumes "stack_shape stack" and "list_all (is_element m) (frames stack)"
  shows "stack_peek stack = Returns None \<or>
         (\<exists>a e. stack_peek stack = Returns (Some a) \<and> is_element m (Some a) \<and>
            element_at m a = Returns e)"
proof (cases "frames stack = []")
  case True
  then show ?thesis using stack_peek_frames [OF assms(1)] by simp
next
  case False
  then have "is_element m (last (frames stack))" using assms(2) by (rule last_in_list_all [rotated])
  then obtain a where a: "last (frames stack) = Some a" "is_element m (Some a)"
    by (auto simp: is_element_iff)
  with element_at_is_element [OF a(2)] stack_peek_frames [OF assms(1)] False
  show ?thesis by auto
qed

lemma lilx_elem_name_end_action_kind:
  assumes "stack_shape stack" and "list_all (is_element m) (frames stack)"
  shows "lilx_elem_name_end_action stack m tkn tr \<noteq> Undefined Wrong_kind"
  using top_is_element [OF assms] stack_pop_kind [of stack]
  by (auto simp: lilx_elem_name_end_action_def split: option.splits outcome.splits)

lemma lilx_elem_action_kind:
  assumes "stack_shape stack" and "list_all (is_element m) (frames stack)"
  shows "lilx_elem_action stack m tkn tr \<noteq> Undefined Wrong_kind"
  using top_is_element [OF assms]
  by (auto simp: lilx_elem_action_def Let_def split: option.splits outcome.splits prod.splits)

lemma lilx_add_child_defined:
  "is_element m (Some p) \<Longrightarrow> \<exists>rc m'. lilx_add_child m p c = Returns (rc, m')"
  by (auto simp: lilx_add_child_def Let_def split: prod.splits dest!: element_at_is_element)

lemma lilx_add_attr_defined:
  "is_element m (Some p) \<Longrightarrow> \<exists>rc m'. lilx_add_attr m p c = Returns (rc, m')"
  by (auto simp: lilx_add_attr_def Let_def split: prod.splits dest!: element_at_is_element)

lemma is_element_fresh:
  assumes "is_element m p" and "new_obj v m = (Some a, m1)" and "alloc m1 = (ok, m2)"
  shows "is_element (store m2 a w) p"
proof -
  from new_obj_Some [OF assms(2)] have a: "a = length (objs m)" and o1: "objs m1 = objs m @ [v]"
    by simp_all
  have "is_element m1 p" using o1 assms(1) by (rule is_element_append)
  then have "is_element m2 p" using is_element_objs [OF alloc_objs [OF assms(3)], of p] by simp
  moreover have "p \<noteq> Some a" using assms(1) a by (auto simp: is_element_iff)
  ultimately show ?thesis by (rule is_element_store_other)
qed

lemma lilx_elem_name_start_action_kind:
  assumes sh: "stack_shape stack" and el: "list_all (is_element m) (frames stack)"
  shows "lilx_elem_name_start_action stack m tkn tr \<noteq> Undefined Wrong_kind"
proof -
  obtain r m1 where n: "new_obj (Elem lilx_init_element) m = (r, m1)"
    by (cases "new_obj (Elem lilx_init_element) m")
  obtain ok m2 where a: "alloc m1 = (ok, m2)" by (cases "alloc m1")
  show ?thesis
  proof (cases r)
    case None
    with n show ?thesis by (simp add: lilx_elem_name_start_action_def)
  next
    case (Some element)
    let ?m3 = "store m2 element (Elem (lilx_init_element\<lparr>elem_name := Some tkn\<rparr>))"
    from top_is_element [OF sh el] show ?thesis
    proof (elim disjE exE conjE)
      assume "stack_peek stack = Returns None"
      then show ?thesis
        using n Some a stack_push_kind [of stack "Some element"]
        by (auto simp: lilx_elem_name_start_action_def Let_def split: outcome.splits)
    next
      fix p e
      assume peek: "stack_peek stack = Returns (Some p)" and p: "is_element m (Some p)"
      have "is_element ?m3 (Some p)"
        using p n [unfolded Some] a by (rule is_element_fresh)
      from lilx_add_child_defined [OF this, of element] obtain rc1 m4 where
        "lilx_add_child ?m3 p element = Returns (rc1, m4)" by blast
      then show ?thesis
        using n Some a peek stack_push_kind [of stack "Some element"]
        by (auto simp: lilx_elem_name_start_action_def Let_def split: outcome.splits)
    qed
  qed
qed

lemma lilx_attr_name_action_kind:
  assumes sh: "stack_shape stack" and el: "list_all (is_element m) (frames stack)"
  shows "lilx_attr_name_action stack m tkn tr \<noteq> Undefined Wrong_kind"
proof -
  obtain r m1 where n: "new_obj (Attr \<lparr>attr_name = None, attr_value = None\<rparr>) m = (r, m1)"
    by (cases "new_obj (Attr \<lparr>attr_name = None, attr_value = None\<rparr>) m")
  obtain ok m2 where a: "alloc m1 = (ok, m2)" by (cases "alloc m1")
  show ?thesis
  proof (cases r)
    case None
    with n show ?thesis by (simp add: lilx_attr_name_action_def)
  next
    case (Some attr)
    let ?m3 = "store m2 attr (Attr \<lparr>attr_name = Some tkn, attr_value = None\<rparr>)"
    from top_is_element [OF sh el] show ?thesis
    proof (elim disjE exE conjE)
      assume "stack_peek stack = Returns None"
      then show ?thesis
        using n Some a
        by (auto simp: lilx_attr_name_action_def Let_def split: outcome.splits)
    next
      fix p e
      assume peek: "stack_peek stack = Returns (Some p)" and p: "is_element m (Some p)"
      have "is_element ?m3 (Some p)"
        using p n [unfolded Some] a by (rule is_element_fresh)
      from lilx_add_attr_defined [OF this, of attr] obtain rc1 m4 where
        "lilx_add_attr ?m3 p attr = Returns (rc1, m4)" by blast
      then show ?thesis
        using n Some a peek stack_push_kind [of stack "Some attr"]
        by (auto simp: lilx_attr_name_action_def Let_def split: outcome.splits)
    qed
  qed
qed

lemma lilx_attr_val_action_kind:
  assumes sh: "stack_shape stack" and ne: "frames stack \<noteq> []"
    and op: "is_open_attribute m (last (frames stack))"
  shows "lilx_attr_val_action stack m tkn tr \<noteq> Undefined Wrong_kind"
proof -
  from op obtain attr where top: "last (frames stack) = Some attr"
    by (auto simp: is_open_attribute_iff)
  have peek: "stack_peek stack = Returns (Some attr)"
    using stack_peek_frames [OF sh] ne top by simp
  from attribute_at_open op top obtain x where
    x: "attribute_at m attr = Returns x" "attr_value x = None" by auto
  show ?thesis
    using peek x stack_pop_kind
    by (auto simp: lilx_attr_val_action_def Let_def
        split: outcome.splits prod.splits if_splits)
qed

lemma lilx_actions_kind:
  assumes "stack_inv stack" and "frame_kinds_at st stack m"
  shows "lilx_actions st stack m tkn tr \<noteq> Undefined Wrong_kind"
proof -
  have sh: "stack_shape stack" using assms(1) by (simp add: stack_inv_def)
  show ?thesis
    using assms(2) sh lilx_elem_name_start_action_kind lilx_elem_name_end_action_kind
      lilx_attr_name_action_kind lilx_attr_val_action_kind lilx_elem_action_kind
    by (cases st)
      (simp_all add: lilx_actions_def frame_kinds_at_def lilx_comment_action_def
        lilx_end_action_def)
qed

lemma lilx_compare_loop_kind: "lilx_compare_loop xml tr off \<noteq> Undefined Wrong_kind"
  by (induction xml tr off rule: lilx_compare_loop.induct) auto

lemma lilx_try_transition_kind: "lilx_try_transition xml i tran acc \<noteq> Undefined Wrong_kind"
  using lilx_compare_loop_kind [of xml _ 0]
  by (auto simp: lilx_try_transition_def lilx_compare_def Let_def
      split: option.splits outcome.splits)

lemma lilx_scan_choices_kind: "lilx_scan_choices xml i trs acc \<noteq> Undefined Wrong_kind"
  using lilx_try_transition_kind
  by (induction trs arbitrary: acc) (auto split: outcome.splits)

lemma lilx_scan_states_kind: "lilx_scan_states xml rows acc \<noteq> Undefined Wrong_kind"
  using lilx_scan_choices_kind
  by (induction rows arbitrary: acc) (auto split: outcome.splits)

lemma lilx_get_next_state_kind: "lilx_get_next_state state xml \<noteq> Undefined Wrong_kind"
  using lilx_scan_states_kind [of xml "zip all_states (lilx_transitions state)" "(- 1, None)"]
  by (auto simp: lilx_get_next_state_def split: outcome.splits)

lemma lilx_iteration_kind:
  assumes "stack_inv (c_stack c)" and "frame_kinds c"
  shows "lilx_iteration c \<noteq> Stuck Wrong_kind"
  using lilx_get_next_state_kind [of "c_state c" "c_xml c"]
    lilx_actions_kind [OF assms(1) assms(2) [unfolded frame_kinds_def]]
  by (auto simp: lilx_iteration_def split: outcome.splits option.splits list.splits)

lemma reachable_steps: "reachable c0 c \<Longrightarrow> reachable c0 (lilx_steps n c)"
proof (induction n arbitrary: c)
  case 0
  then show ?case by simp
next
  case (Suc n)
  show ?case
  proof (cases "c_state c = END")
    case True
    then show ?thesis using Suc.prems by simp
  next
    case False
    show ?thesis
    proof (cases "c_xml c")
      case Nil
      then show ?thesis using False Suc.prems by simp
    next
      case (Cons x xs)
      show ?thesis
      proof (cases "x = CHR 0x00")
        case True
        then show ?thesis using False Cons Suc.prems by simp
      next
        case nz: False
        show ?thesis
        proof (cases "lilx_iteration c")
          case (Continue c')
          have "reachable c0 c'"
            using Suc.prems False Cons nz Continue by (rule reachable_step)
          from Suc.IH [OF this] show ?thesis using False Cons nz Continue by simp
        next
          case (Break c')
          then show ?thesis using False Cons nz Suc.prems by simp
        next
          case (Stuck f)
          then show ?thesis using False Cons nz Suc.prems by simp
        qed
      qed
    qed
  qed
qed

text \<open>
  Claim C7. In every configuration at the head of the driver loop of a run of
  \<^verbatim>\<open>lilx_create_tree\<close>, the state determines the kinds of the frames: in state \<open>ATTR_VAL\<close>
  the stack is not empty, its top frame is an attribute whose value is not set and every
  frame below is an element; in every other state every frame is an element. The loop
  body run from such a configuration never uses a frame through the wrong struct type.
\<close>

theorem frame_kinds_reachable:
  assumes "lilx_setup raw_text b = Inr c0" and "reachable c0 c"
  shows "frame_kinds c \<and> lilx_iteration c \<noteq> Stuck Wrong_kind"
proof -
  note s = lilx_setup_inv [OF assms(1)]
  from reachable_inv [OF assms(2) s] have "stack_inv (c_stack c)" "frame_kinds c"
    by simp_all
  then show ?thesis using lilx_iteration_kind by simp
qed

lemma attribute_run:
  "(case lilx_setup (''<a k='' @ [CHR 0x22] @ ''v'' @ [CHR 0x22] @ ''/>'') None of
      Inl r \<Rightarrow> False
    | Inr c0 \<Rightarrow> c_state (lilx_steps 4 c0) = ATTR_VAL)"
  by code_simp

theorem frame_kinds_reachable_witness:
  "(case lilx_setup (''<a k='' @ [CHR 0x22] @ ''v'' @ [CHR 0x22] @ ''/>'') None of
      Inl r \<Rightarrow> False
    | Inr c0 \<Rightarrow>
       reachable c0 (lilx_steps 4 c0) \<and> c_state (lilx_steps 4 c0) = ATTR_VAL \<and>
       frame_kinds (lilx_steps 4 c0) \<and> lilx_iteration (lilx_steps 4 c0) \<noteq> Stuck Wrong_kind)"
proof -
  let ?raw = "''<a k='' @ [CHR 0x22] @ ''v'' @ [CHR 0x22] @ ''/>''"
  obtain c0 where c0: "lilx_setup ?raw None = Inr c0"
    using attribute_run by (cases "lilx_setup ?raw None") auto
  have st: "c_state (lilx_steps 4 c0) = ATTR_VAL" using attribute_run unfolding c0 by simp
  have r: "reachable c0 (lilx_steps 4 c0)"
    by (rule reachable_steps) (rule reachable_start)
  from frame_kinds_reachable [OF c0 r] st r show ?thesis unfolding c0 by simp
qed

subsection \<open>The result of lilx\_create\_tree\<close>

lemma stack_free_inv: "stack_inv stack \<Longrightarrow> stack_free stack = Returns ()"
  by (auto simp: stack_inv_def stack_shape_def stack_free_def LILX_STACK_SIZE_def)

text \<open>
  When the loop is left in state \<open>END\<close> with one frame on the stack, the function returns 0
  and the frame is the root.
\<close>

lemma lilx_create_tree_success:
  assumes "lilx_setup raw_text b = Inr c0" and "lilx_loop c0 = Some (Returns c)"
    and "c_state c = END" and "stk_size (c_stack c) = 1"
  shows "lilx_create_tree raw_text b = Some (Returns (0, c_mem c))"
    and "frames (c_stack c) = [Some root]"
proof -
  note s = lilx_setup_inv [OF assms(1)]
  from lilx_loop_inv [OF assms(2)] s have si: "stack_inv (c_stack c)" by simp
  have "lilx_finish c = Some (Returns (0, c_mem c))"
    using stack_free_inv [OF si] assms(3,4) by (simp add: lilx_finish_def)
  then show "lilx_create_tree raw_text b = Some (Returns (0, c_mem c))"
    using assms(1,2) by (simp add: lilx_create_tree_def)
  have sh: "stack_shape (c_stack c)" using si by (simp add: stack_inv_def)
  have "length (frames (c_stack c)) = 1" using length_frames [OF sh] assms(4) by simp
  then obtain f where f: "frames (c_stack c) = [f]"
    by (cases "frames (c_stack c)") auto
  then show "frames (c_stack c) = [Some root]" using si by (simp add: stack_inv_def)
qed

lemma deep_nesting_run:
  "(case lilx_setup (concat (replicate 101 ''<a>'')) None of
      Inl r \<Rightarrow> False
    | Inr c0 \<Rightarrow>
       (case lilx_loop c0 of
          Some (Returns c) \<Rightarrow>
            c_state c = ELEM_NAME_START \<and> stk_size (c_stack c) = 100 \<and>
            lilx_finish c = Some (Undefined Use_after_free)
        | Some (Undefined f) \<Rightarrow> False
        | None \<Rightarrow> False))"
  by code_simp

text \<open>
  Claim C2 fails on the code. On 101 nested opening tags the 100th start tag finds the
  stack full: its handler has already linked the new element into its parent, and on the
  failure of \<^verbatim>\<open>stack_push\<close> it frees the element. The loop is left by \<^verbatim>\<open>break\<close> in state
  \<open>ELEM_NAME_START\<close> with 100 frames, an ending that is to return failure; but
  \<^verbatim>\<open>lilx_free_tree\<close> then walks from the root into the freed element, and the function
  does not return 1.
\<close>

theorem lilx_create_tree_deep_nesting:
  "(case lilx_setup (concat (replicate 101 ''<a>'')) None of
      Inl r \<Rightarrow> False
    | Inr c0 \<Rightarrow>
       (case lilx_loop c0 of
          Some (Returns c) \<Rightarrow> c_state c = ELEM_NAME_START \<and> stk_size (c_stack c) = 100
        | Some (Undefined f) \<Rightarrow> False
        | None \<Rightarrow> False)) \<and>
   lilx_create_tree (concat (replicate 101 ''<a>'')) None = Some (Undefined Use_after_free)"
proof -
  let ?raw = "concat (replicate 101 ''<a>'')"
  obtain c0 where c0: "lilx_setup ?raw None = Inr c0"
    using deep_nesting_run by (cases "lilx_setup ?raw None") auto
  from deep_nesting_run obtain c where c: "lilx_loop c0 = Some (Returns c)"
    and e: "c_state c = ELEM_NAME_START" "stk_size (c_stack c) = 100"
    and f: "lilx_finish c = Some (Undefined Use_after_free)"
    unfolding c0 by (auto split: option.splits outcome.splits)
  have "lilx_create_tree ?raw None = Some (Undefined Use_after_free)"
    unfolding lilx_create_tree_def c0 using c f by simp
  then show ?thesis unfolding c0 using c e by simp
qed

end
